theory Spec2Isabelle
  imports Main
begin

section \<open>Strings and regular expressions\<close>

text \<open>
  JavaScript strings are modelled as \<^typ>\<open>string\<close>: sequences of code units below 256.
  On that range the white space of \<^verbatim>\<open>String.prototype.trim\<close> and of the regular
  expression class \<^verbatim>\<open>\s\<close> is TAB, LF, VT, FF, CR, SPACE and NBSP; \<^verbatim>\<open>\w\<close> is
  \<^verbatim>\<open>[A-Za-z0-9_]\<close>; \<^verbatim>\<open>.\<close> is anything but LF and CR.
\<close>

definition bslash :: char where
  "bslash = CHR 0x5C"

definition dquote :: char where
  "dquote = CHR 0x22"

definition squote :: char where
  "squote = CHR 0x27"

definition newline :: char where
  "newline = CHR 0x0A"

definition is_space :: "char \<Rightarrow> bool" where
  "is_space c = (let n = (of_char c :: nat) in (9 \<le> n \<and> n \<le> 13) \<or> n = 32 \<or> n = 160)"

definition is_word :: "char \<Rightarrow> bool" where
  "is_word c = (let n = (of_char c :: nat) in
     (48 \<le> n \<and> n \<le> 57) \<or> (65 \<le> n \<and> n \<le> 90) \<or> n = 95 \<or> (97 \<le> n \<and> n \<le> 122))"

definition is_alpha :: "char \<Rightarrow> bool" where
  "is_alpha c = (let n = (of_char c :: nat) in (65 \<le> n \<and> n \<le> 90) \<or> (97 \<le> n \<and> n \<le> 122))"

definition is_dot :: "char \<Rightarrow> bool" where
  "is_dot c = (let n = (of_char c :: nat) in n \<noteq> 10 \<and> n \<noteq> 13)"

definition lower_char :: "char \<Rightarrow> char" where
  "lower_char c = (let n = (of_char c :: nat) in
     if (65 \<le> n \<and> n \<le> 90) \<or> (192 \<le> n \<and> n \<le> 222 \<and> n \<noteq> 215) then char_of (n + 32) else c)"

definition toLowerCase :: "string \<Rightarrow> string" where
  "toLowerCase s = map lower_char s"

text \<open>Under the \<^verbatim>\<open>i\<close> flag an ASCII letter of a pattern matches itself in either case.\<close>

definition ci :: "char \<Rightarrow> char \<Rightarrow> bool" where
  "ci a c = (c = a \<or> (is_alpha a \<and> is_alpha c \<and> lower_char c = lower_char a))"

definition trim :: "string \<Rightarrow> string" where
  "trim s = rev (dropWhile is_space (rev (dropWhile is_space s)))"

text \<open>\<^verbatim>\<open>s.includes(t)\<close>.\<close>

fun str_includes :: "string \<Rightarrow> string \<Rightarrow> bool" where
  "str_includes [] t = (t = [])"
| "str_includes (c # cs) t = (take (length t) (c # cs) = t \<or> str_includes cs t)"

text \<open>\<^verbatim>\<open>s.startsWith(t)\<close>.\<close>

definition startsWith :: "string \<Rightarrow> string \<Rightarrow> bool" where
  "startsWith s t = (take (length t) s = t)"

text \<open>\<^verbatim>\<open>s.split("\n")\<close> and \<^verbatim>\<open>xs.join("\n")\<close>.\<close>

fun split_lines :: "string \<Rightarrow> string list" where
  "split_lines [] = [[]]"
| "split_lines (c # cs) =
     (if c = newline then [] # split_lines cs
      else (case split_lines cs of l # ls \<Rightarrow> (c # l) # ls | [] \<Rightarrow> [[c]]))"

fun join_lines :: "string list \<Rightarrow> string" where
  "join_lines [] = []"
| "join_lines [l] = l"
| "join_lines (l # ls) = l @ newline # join_lines ls"

text \<open>
  The regular expressions of the source use single characters and character classes,
  greedy repetition of a class, sequence, alternation, capture groups, \<^verbatim>\<open>\b\<close>,
  \<^verbatim>\<open>^\<close> and \<^verbatim>\<open>$\<close> (never with the \<^verbatim>\<open>m\<close> flag). A matcher position is the
  character before the cursor, the rest of the input and the captures so far;
  \<open>runs\<close> lists the positions a pattern can end at, in the order a backtracking
  matcher tries them.
\<close>

datatype rx =
    Chr "char \<Rightarrow> bool"
  | Star "char \<Rightarrow> bool"
  | Seq rx rx
  | Alt rx rx
  | Eps
  | Grp nat rx
  | WordB
  | Bol
  | Eol

type_synonym pos = "char option \<times> string \<times> (nat \<times> string) list"

fun star_runs :: "(char \<Rightarrow> bool) \<Rightarrow> char option \<Rightarrow> string \<Rightarrow> (nat \<times> string) list \<Rightarrow> pos list" where
  "star_runs p prev [] caps = [(prev, [], caps)]"
| "star_runs p prev (c # cs) caps =
     (if p c then star_runs p (Some c) cs caps else []) @ [(prev, c # cs, caps)]"

definition at_word :: "char option \<Rightarrow> bool" where
  "at_word x = (case x of None \<Rightarrow> False | Some c \<Rightarrow> is_word c)"

definition head :: "string \<Rightarrow> char option" where
  "head s = (case s of [] \<Rightarrow> None | c # _ \<Rightarrow> Some c)"

fun runs :: "rx \<Rightarrow> pos \<Rightarrow> pos list" where
  "runs (Chr p) (prev, s, caps) =
     (case s of [] \<Rightarrow> [] | c # cs \<Rightarrow> if p c then [(Some c, cs, caps)] else [])"
| "runs (Star p) (prev, s, caps) = star_runs p prev s caps"
| "runs (Seq a b) st = concat (map (runs b) (runs a st))"
| "runs (Alt a b) st = runs a st @ runs b st"
| "runs Eps st = [st]"
| "runs (Grp n r) (prev, s, caps) =
     map (\<lambda>(prev', s', caps'). (prev', s', (n, take (length s - length s') s) # caps'))
       (runs r (prev, s, caps))"
| "runs WordB (prev, s, caps) = (if at_word prev \<noteq> at_word (head s) then [(prev, s, caps)] else [])"
| "runs Bol (prev, s, caps) = (if prev = None then [(prev, s, caps)] else [])"
| "runs Eol (prev, s, caps) = (if s = [] then [(prev, s, caps)] else [])"

text \<open>
  \<^verbatim>\<open>s.match(r)\<close> without the \<^verbatim>\<open>g\<close> flag: the leftmost start with a run, and there
  the first run; the result is the matched text \<^verbatim>\<open>m[0]\<close> and the captures.
\<close>

fun search :: "rx \<Rightarrow> char option \<Rightarrow> string \<Rightarrow> (string \<times> (nat \<times> string) list) option" where
  "search r prev [] =
     (case runs r (prev, [], []) of [] \<Rightarrow> None | (_, s', caps) # _ \<Rightarrow> Some ([], caps))"
| "search r prev (c # cs) =
     (case runs r (prev, c # cs, []) of
        [] \<Rightarrow> search r (Some c) cs
      | (_, s', caps) # _ \<Rightarrow> Some (take (length (c # cs) - length s') (c # cs), caps))"

definition match :: "rx \<Rightarrow> string \<Rightarrow> (string \<times> (nat \<times> string) list) option" where
  "match r s = search r None s"

text \<open>\<^verbatim>\<open>r.test(s)\<close>.\<close>

definition test :: "rx \<Rightarrow> string \<Rightarrow> bool" where
  "test r s = (match r s \<noteq> None)"

text \<open>\<^verbatim>\<open>m[n]\<close> of a match; a group that did not take part is \<^verbatim>\<open>undefined\<close>.\<close>

definition group :: "nat \<Rightarrow> (nat \<times> string) list \<Rightarrow> string option" where
  "group n caps = map_of caps n"

definition lit :: "string \<Rightarrow> rx" where
  "lit s = foldr (\<lambda>c r. Seq (Chr ((=) c)) r) s Eps"

definition lit_i :: "string \<Rightarrow> rx" where
  "lit_i s = foldr (\<lambda>c r. Seq (Chr (ci c)) r) s Eps"

definition many1 :: "(char \<Rightarrow> bool) \<Rightarrow> rx" where
  "many1 p = Seq (Chr p) (Star p)"

definition opt :: "rx \<Rightarrow> rx" where
  "opt r = Alt r Eps"

definition seqs :: "rx list \<Rightarrow> rx" where
  "seqs rs = foldr Seq rs Eps"

definition alts :: "rx \<Rightarrow> rx list \<Rightarrow> rx" where
  "alts r rs = foldl Alt r rs"

definition any_of :: "string \<Rightarrow> char \<Rightarrow> bool" where
  "any_of cs c = (c \<in> set cs)"

definition none_of :: "string \<Rightarrow> char \<Rightarrow> bool" where
  "none_of cs c = (c \<notin> set cs)"

definition non_space :: "char \<Rightarrow> bool" where
  "non_space c = (\<not> is_space c)"

text \<open>
  What a pattern means, to state what the matcher computes: \<open>sem r p w s'\<close> holds when
  \<open>r\<close> matches exactly the text \<open>w\<close>, with \<open>p\<close> the character before it and
  \<open>s'\<close> the input after it. \<open>after p w\<close> is the character before the cursor once
  \<open>w\<close> has been read.
\<close>

definition after :: "char option \<Rightarrow> string \<Rightarrow> char option" where
  "after p w = (if w = [] then p else Some (last w))"

primrec sem :: "rx \<Rightarrow> char option \<Rightarrow> string \<Rightarrow> string \<Rightarrow> bool" where
  "sem (Chr P) p w s' = (\<exists>c. w = [c] \<and> P c)"
| "sem (Star P) p w s' = (\<forall>c\<in>set w. P c)"
| "sem (Seq a b) p w s' = (\<exists>u v. w = u @ v \<and> sem a p u (v @ s') \<and> sem b (after p u) v s')"
| "sem (Alt a b) p w s' = (sem a p w s' \<or> sem b p w s')"
| "sem Eps p w s' = (w = [])"
| "sem (Grp n r) p w s' = sem r p w s'"
| "sem WordB p w s' = (w = [] \<and> at_word p \<noteq> at_word (head s'))"
| "sem Bol p w s' = (w = [] \<and> p = None)"
| "sem Eol p w s' = (w = [] \<and> s' = [])"

section \<open>Command dispatcher (src/utils.js, createTools)\<close>

subsection \<open>Shell selection\<close>

text \<open>\<^verbatim>\<open>/\$\w+/\<close>\<close>

definition rx_variable :: rx where
  "rx_variable = seqs [Chr ((=) CHR ''$''), many1 is_word]"

text \<open>\<^verbatim>\<open>/\b(Get|Set|New|Remove|Write|Select|Where|ForEach|Out|Format|Start)-\w+\b/\<close>\<close>

definition cmdlet_verbs :: "string list" where
  "cmdlet_verbs = [''Get'', ''Set'', ''New'', ''Remove'', ''Write'', ''Select'', ''Where'',
     ''ForEach'', ''Out'', ''Format'', ''Start'']"

definition rx_cmdlet :: rx where
  "rx_cmdlet = seqs [WordB, alts (lit (hd cmdlet_verbs)) (map lit (tl cmdlet_verbs)),
     Chr ((=) CHR ''-''), many1 is_word, WordB]"

text \<open>\<^verbatim>\<open>/\|\s*(Select|Where|ForEach|Out|Format)-\w+\b/\<close>\<close>

definition pipe_verbs :: "string list" where
  "pipe_verbs = [''Select'', ''Where'', ''ForEach'', ''Out'', ''Format'']"

definition rx_pipe_cmdlet :: rx where
  "rx_pipe_cmdlet = seqs [Chr ((=) CHR ''|''), Star is_space,
     alts (lit (hd pipe_verbs)) (map lit (tl pipe_verbs)),
     Chr ((=) CHR ''-''), many1 is_word, WordB]"

text \<open>
  A tool input reaches the dispatcher as the reasoning service sent it: parsed from
  JSON, not validated. The \<^verbatim>\<open>command\<close> and the \<^verbatim>\<open>script\<close> are therefore kept as
  JSON values, \<open>JUndefined\<close> for an absent field. Numbers are the integers of
  magnitude below \<^verbatim>\<open>1e21\<close>, which \<^verbatim>\<open>String\<close> prints in plain decimal.
\<close>

datatype json =
    JUndefined
  | JNull
  | JBool bool
  | JNumber int
  | JString string
  | JArray "json list"
  | JObject "(string \<times> json) list"

text \<open>Truthiness, as \<^verbatim>\<open>!x\<close>, \<^verbatim>\<open>x && y\<close> and \<^verbatim>\<open>x || y\<close> test it.\<close>

fun js_truthy :: "json \<Rightarrow> bool" where
  "js_truthy JUndefined = False"
| "js_truthy JNull = False"
| "js_truthy (JBool b) = b"
| "js_truthy (JNumber n) = (n \<noteq> 0)"
| "js_truthy (JString s) = (s \<noteq> [])"
| "js_truthy (JArray xs) = True"
| "js_truthy (JObject kvs) = True"

text \<open>
  The conversion to a string that \<^verbatim>\<open>x.toString()\<close> and \<^verbatim>\<open>RegExp.prototype.test\<close>
  apply: a string is itself, an array is its elements joined by commas with
  \<^verbatim>\<open>null\<close> elements empty, an object is \<^verbatim>\<open>[object Object]\<close>.
\<close>

fun digits :: "nat \<Rightarrow> string" where
  "digits n = (if n < 10 then [char_of (48 + n)]
               else digits (n div 10) @ [char_of (48 + n mod 10)])"

declare digits.simps [simp del]

definition number_toString :: "int \<Rightarrow> string" where
  "number_toString n = (if n < 0 then CHR ''-'' # digits (nat (- n)) else digits (nat n))"

fun join_commas :: "string list \<Rightarrow> string" where
  "join_commas [] = []"
| "join_commas [x] = x"
| "join_commas (x # xs) = x @ CHR '','' # join_commas xs"

fun toString :: "json \<Rightarrow> string" where
  "toString JUndefined = ''undefined''"
| "toString JNull = ''null''"
| "toString (JBool b) = (if b then ''true'' else ''false'')"
| "toString (JNumber n) = number_toString n"
| "toString (JString s) = s"
| "toString (JArray xs) =
     join_commas (map (\<lambda>x. if x = JUndefined \<or> x = JNull then [] else toString x) xs)"
| "toString (JObject kvs) = ''[object Object]''"

text \<open>\<^verbatim>\<open>(x || "").toString()\<close> of a JSON value.\<close>

definition js_str_or_empty :: "json \<Rightarrow> string" where
  "js_str_or_empty x = (if js_truthy x then toString x else [])"

text \<open>
  \<^verbatim>\<open>x.includes(t)\<close> for a truthy \<^verbatim>\<open>x\<close>: strings and arrays have the method, and
  for every other value the call throws a \<^verbatim>\<open>TypeError\<close> (\<open>None\<close>).
\<close>

definition js_includes :: "json \<Rightarrow> string \<Rightarrow> bool option" where
  "js_includes x t =
     (case x of
        JString s \<Rightarrow> Some (str_includes s t)
      | JArray xs \<Rightarrow> Some (JString t \<in> set xs)
      | _ \<Rightarrow> None)"

text \<open>The value of a field that \<^verbatim>\<open>typeof\<close> gives as a string.\<close>

definition string_value :: "json \<Rightarrow> string option" where
  "string_value x = (case x of JString s \<Rightarrow> Some s | _ \<Rightarrow> None)"

text \<open>A field that is absent or holds a string, as a JSON value.\<close>

definition text_field :: "string option \<Rightarrow> json" where
  "text_field x = (case x of None \<Rightarrow> JUndefined | Some s \<Rightarrow> JString s)"


text \<open>
  \<^verbatim>\<open>shouldUsePowerShell\<close> gives \<open>Inl\<close> the message of the \<^verbatim>\<open>TypeError\<close> it throws
  when its argument is truthy and has no \<^verbatim>\<open>includes\<close> method.
\<close>

definition shouldUsePowerShell :: "json \<Rightarrow> string + bool" where
  "shouldUsePowerShell command =
     (if \<not> js_truthy command then Inr False
      else (case js_includes command [newline] of
              None \<Rightarrow> Inl ''command.includes is not a function''
            | Some found \<Rightarrow>
                Inr (found \<or> test rx_variable (toString command)
                     \<or> test rx_cmdlet (toString command)
                     \<or> test rx_pipe_cmdlet (toString command))))"

text \<open>
  The heuristic in the words of the specification: the text contains a newline; a variable
  sigil followed by an identifier character; a cmdlet-style verb-noun token, one of the
  listed verbs at the start of a word, a hyphen and an identifier character; or a pipe,
  optional white space, and such a token of one of the five pipeline verbs.
\<close>

definition has_newline :: "string \<Rightarrow> bool" where
  "has_newline s = (newline \<in> set s)"

definition has_variable :: "string \<Rightarrow> bool" where
  "has_variable s = (\<exists>u c v. s = u @ CHR ''$'' # c # v \<and> is_word c)"

definition has_cmdlet :: "string \<Rightarrow> bool" where
  "has_cmdlet s =
     (\<exists>u verb c v. s = u @ verb @ CHR ''-'' # c # v \<and> verb \<in> set cmdlet_verbs \<and> is_word c
        \<and> (u = [] \<or> \<not> is_word (last u)))"

definition has_piped_cmdlet :: "string \<Rightarrow> bool" where
  "has_piped_cmdlet s =
     (\<exists>u ws verb c v. s = u @ CHR ''|'' # ws @ verb @ CHR ''-'' # c # v
        \<and> (\<forall>x\<in>set ws. is_space x) \<and> verb \<in> set pipe_verbs \<and> is_word c)"

definition structured_text :: "string \<Rightarrow> bool" where
  "structured_text s = (has_newline s \<or> has_variable s \<or> has_cmdlet s \<or> has_piped_cmdlet s)"

text \<open>
  The arguments of \<^verbatim>\<open>executeCommand\<close>: the command and the script as JSON values,
  the other fields typed as the tool's input schema types them, \<open>None\<close> an absent
  field. A \<^verbatim>\<open>use_powershell\<close> that is not a boolean is \<open>None\<close>, which is all the
  code asks of it. The same record is the
  \<^verbatim>\<open>input\<close> of a tool-use request, so it also carries the fields of
  \<^verbatim>\<open>browse_website\<close> the orchestrator reads.
\<close>

record tool_input =
  command :: json
  script :: json
  shell :: "string option"
  file_path :: "string option"
  timeout_ms :: "nat option"
  cwd :: "string option"
  use_powershell :: "bool option"
  url :: "string option"
  task :: "string option"

text \<open>JavaScript truthiness of an optional string.\<close>

definition truthy :: "string option \<Rightarrow> bool" where
  "truthy x = (case x of None \<Rightarrow> False | Some s \<Rightarrow> s \<noteq> [])"

text \<open>\<^verbatim>\<open>(x || "").toString()\<close> and \<^verbatim>\<open>(x ?? "").toString()\<close> of an optional string.\<close>

definition str_or_empty :: "string option \<Rightarrow> string" where
  "str_or_empty x = (case x of None \<Rightarrow> [] | Some s \<Rightarrow> s)"

text \<open>
  \<^verbatim>\<open>detectShell\<close> gives \<open>Inl\<close> the message of the error \<^verbatim>\<open>shouldUsePowerShell\<close>
  throws, or \<open>Inr\<close> the shell. \<^verbatim>\<open>x && shouldUsePowerShell(x)\<close> calls the function
  for a truthy \<^verbatim>\<open>x\<close> only.
\<close>

definition detectShell :: "string option \<Rightarrow> json \<Rightarrow> json \<Rightarrow> bool option \<Rightarrow> string + string" where
  "detectShell shell' command' script' use_powershell' =
     (if truthy shell' \<and> shell' \<noteq> Some ''auto'' then Inr (the shell')
      else (case use_powershell' of
              Some b \<Rightarrow> Inr (if b then ''powershell'' else ''cmd'')
            | None \<Rightarrow>
                (case (if js_truthy script' then shouldUsePowerShell script' else Inr False) of
                   Inl message \<Rightarrow> Inl message
                 | Inr forScript \<Rightarrow>
                     if forScript then Inr ''powershell''
                     else (case (if js_truthy command' then shouldUsePowerShell command'
                                 else Inr False) of
                             Inl message \<Rightarrow> Inl message
                           | Inr forCommand \<Rightarrow>
                               Inr (if forCommand then ''powershell'' else ''cmd'')))))"


subsection \<open>Chrome launches\<close>

text \<open>
  What the dispatcher reads from the machine and what it does to it. The reads are
  parameters: the executables \<^verbatim>\<open>resolveChromeExe\<close>, \<^verbatim>\<open>getPowerShellExe\<close> and
  \<^verbatim>\<open>getGitBashExe\<close> find in the configuration and on disk, the outcome of
  \<^verbatim>\<open>child_process.spawn\<close> (\<open>Some\<close> message when it throws), of \<^verbatim>\<open>execPromise\<close>
  (\<open>Inl\<close> the rejection's message and stdout, \<open>Inr\<close> stdout and stderr), of
  \<^verbatim>\<open>writeTempScriptFile\<close> (\<open>Inl\<close> the message when it throws, \<open>Inr\<close> the path
  written), and the base64 of the UTF-16LE bytes of a script. The writes are recorded
  as a list of effects, in order.
\<close>

record sys =
  resolveChromeExe :: string
  getPowerShellExe :: string
  getGitBashExe :: string
  spawn :: "string \<Rightarrow> string list \<Rightarrow> string option"
  execPromise :: "string \<Rightarrow> (string \<times> string) + (string \<times> string)"
  writeTempScriptFile :: "string \<Rightarrow> string \<Rightarrow> string option \<Rightarrow> string + string"
  toPowerShellEncodedCommand :: "string \<Rightarrow> string"

datatype effect =
    Spawned string "string list"
  | Exec string nat
  | ScriptWritten string

text \<open>
  The result envelope of a tool, also the payload of a tool result. \<open>deferred\<close> and
  \<open>deduped\<close> are \<open>False\<close> where the object has no such field.
\<close>

record tool_result =
  success :: bool
  deferred :: bool
  deduped :: bool
  error :: "string option"
  res_note :: "string option"
  fingerprint :: "string option"
  res_output :: "string option"

definition envelope :: "bool \<Rightarrow> string option \<Rightarrow> string option \<Rightarrow> tool_result" where
  "envelope ok err out =
     \<lparr>success = ok, deferred = False, deduped = False, error = err, res_note = None,
      fingerprint = None, res_output = out\<rparr>"

definition quote_str :: "string \<Rightarrow> string" where
  "quote_str s = dquote # s @ [dquote]"

text \<open>\<^verbatim>\<open>s.replace(/"/g, '\\"')\<close>\<close>

definition escape_dquotes :: "string \<Rightarrow> string" where
  "escape_dquotes s = concat (map (\<lambda>c. if c = dquote then [bslash, dquote] else [c]) s)"

definition quoteCmdArg :: "string \<Rightarrow> string" where
  "quoteCmdArg v =
     (if v = [] then v
      else if str_includes v '' '' then quote_str (escape_dquotes v) else v)"

record chrome_rewrite =
  changed :: bool
  cr_command :: string
  didTryChrome :: bool

text \<open>\<^verbatim>\<open>/^start\s+""\s+.+chrome\.exe/i\<close>\<close>

definition rx_start_title_chrome_exe :: rx where
  "rx_start_title_chrome_exe = seqs [Bol, lit_i ''start'', many1 is_space, lit [dquote, dquote],
     many1 is_space, many1 is_dot, lit_i ''chrome.exe'']"

text \<open>\<^verbatim>\<open>/["']?[A-Za-z]:\\[^"']*chrome\.exe/i\<close>\<close>

definition rx_drive_chrome_exe :: rx where
  "rx_drive_chrome_exe = seqs [opt (Chr (any_of [dquote, squote])), Chr is_alpha, lit '':'',
     Chr ((=) bslash), Star (none_of [dquote, squote]), lit_i ''chrome.exe'']"

text \<open>\<^verbatim>\<open>/^start\s+chrome(?:\.exe)?\b(.*)$/i\<close>\<close>

definition rx_start_chrome :: rx where
  "rx_start_chrome = seqs [Bol, lit_i ''start'', many1 is_space, lit_i ''chrome'',
     opt (lit_i ''.exe''), WordB, Grp 1 (Star is_dot), Eol]"

text \<open>\<^verbatim>\<open>/^start\s+""\s+chrome(?:\.exe)?\b(.*)$/i\<close>\<close>

definition rx_start_title_chrome :: rx where
  "rx_start_title_chrome = seqs [Bol, lit_i ''start'', many1 is_space, lit [dquote, dquote],
     many1 is_space, lit_i ''chrome'', opt (lit_i ''.exe''), WordB, Grp 1 (Star is_dot), Eol]"

text \<open>\<^verbatim>\<open>/^chrome(?:\.exe)?\b(.*)$/i\<close>\<close>

definition rx_bare_chrome :: rx where
  "rx_bare_chrome = seqs [Bol, lit_i ''chrome'', opt (lit_i ''.exe''), WordB,
     Grp 1 (Star is_dot), Eol]"

text \<open>\<^verbatim>\<open>(m[1] || "").trim()\<close>\<close>

definition rest_of :: "(nat \<times> string) list \<Rightarrow> string" where
  "rest_of caps = trim (str_or_empty (group 1 caps))"

definition start_chrome_command :: "string \<Rightarrow> string \<Rightarrow> string" where
  "start_chrome_command chromeExe rest =
     trim (''start '' @ [dquote, dquote] @ '' '' @ quoteCmdArg chromeExe
           @ (if rest \<noteq> [] then '' '' @ rest else []))"

definition rewriteStartChrome :: "sys \<Rightarrow> string option \<Rightarrow> chrome_rewrite" where
  "rewriteStartChrome sys command' =
     (let trimmed = trim (str_or_empty command') in
      if trimmed = [] then \<lparr>changed = False, cr_command = trimmed, didTryChrome = False\<rparr>
      else if test rx_start_title_chrome_exe trimmed
              \<or> (startsWith trimmed ''start '' \<and> test rx_drive_chrome_exe trimmed)
      then \<lparr>changed = False, cr_command = trimmed, didTryChrome = True\<rparr>
      else (case match rx_start_chrome trimmed of
        Some (_, caps) \<Rightarrow>
          \<lparr>changed = True,
           cr_command = start_chrome_command (resolveChromeExe sys) (rest_of caps),
           didTryChrome = True\<rparr>
      | None \<Rightarrow> (case match rx_start_title_chrome trimmed of
        Some (_, caps) \<Rightarrow>
          \<lparr>changed = True,
           cr_command = start_chrome_command (resolveChromeExe sys) (rest_of caps),
           didTryChrome = True\<rparr>
      | None \<Rightarrow> (case match rx_bare_chrome trimmed of
        Some (_, caps) \<Rightarrow>
          (if toLowerCase (resolveChromeExe sys) = ''chrome.exe''
           then \<lparr>changed = False, cr_command = trimmed, didTryChrome = True\<rparr>
           else \<lparr>changed = True,
                 cr_command = trim (quoteCmdArg (resolveChromeExe sys)
                   @ (if rest_of caps \<noteq> [] then '' '' @ rest_of caps else [])),
                 didTryChrome = True\<rparr>)
      | None \<Rightarrow> \<lparr>changed = False, cr_command = trimmed, didTryChrome = False\<rparr>))))"

definition tasklist_command :: string where
  "tasklist_command = ''tasklist /fi '' @ quote_str ''imagename eq chrome.exe'' @ '' /fo table''"

text \<open>\<^verbatim>\<open>/chrome\.exe/i\<close> and \<^verbatim>\<open>/No tasks are running/i\<close>\<close>

definition rx_chrome_exe :: rx where
  "rx_chrome_exe = lit_i ''chrome.exe''"

definition rx_no_tasks :: rx where
  "rx_no_tasks = lit_i ''No tasks are running''"

definition verifyChromeRunning :: "sys \<Rightarrow> (bool \<times> string) \<times> effect list" where
  "verifyChromeRunning sys =
     (case execPromise sys tasklist_command of
        Inr (stdout, stderr) \<Rightarrow>
          (let out = (if stdout \<noteq> [] then stdout else stderr) in
           ((test rx_chrome_exe out \<and> \<not> test rx_no_tasks out, trim out),
            [Exec tasklist_command 8000]))
      | Inl (message, _) \<Rightarrow>
          ((False, if message \<noteq> [] then message else ''Error''), [Exec tasklist_command 8000]))"

text \<open>\<^verbatim>\<open>/https?:\/\/\S+/i\<close>\<close>

definition rx_url :: rx where
  "rx_url = seqs [lit_i ''http'', opt (lit_i ''s''), lit ''://'', many1 non_space]"

definition extractFirstUrl :: "string option \<Rightarrow> string option" where
  "extractFirstUrl text' = map_option fst (match rx_url (str_or_empty text'))"

definition tasklist_section :: "string \<Rightarrow> string" where
  "tasklist_section out = ''[tasklist]'' @ [newline] @ out"

definition tryLaunchChromeDetached :: "sys \<Rightarrow> string option \<Rightarrow> tool_result \<times> effect list" where
  "tryLaunchChromeDetached sys commandText =
     (let chromeExe = resolveChromeExe sys;
          url' = extractFirstUrl commandText;
          args = (case url' of
                    Some u \<Rightarrow> [''--new-window'', ''--autoplay-policy=no-user-gesture-required'', u]
                  | None \<Rightarrow> [''--new-window''])
      in case spawn sys chromeExe args of
           Some message \<Rightarrow>
             (envelope False
                (Some (''Failed to launch Chrome: '' @ (if message \<noteq> [] then message else ''Error'')))
                (Some []), [])
         | None \<Rightarrow>
             (case verifyChromeRunning sys of ((running, out), effs) \<Rightarrow>
                if \<not> running
                then (envelope False (Some ''Chrome did not start (no chrome.exe process detected).'')
                        (Some (if out \<noteq> [] then tasklist_section out else [])),
                      Spawned chromeExe args # effs)
                else (envelope True None
                        (Some (trim (''Chrome launch attempted''
                           @ (case url' of Some u \<Rightarrow> '': '' @ u | None \<Rightarrow> [])
                           @ [newline, newline] @ tasklist_section out))),
                      Spawned chromeExe args # effs)))"


subsection \<open>Safety normalisation of \<^verbatim>\<open>start\<close> commands\<close>

definition isLikelyInvalidWindowsTarget :: "string \<Rightarrow> bool" where
  "isLikelyInvalidWindowsTarget target =
     (let t = trim target in t = [bslash, bslash] \<or> t = [bslash])"

text \<open>\<^verbatim>\<open>/^https?:\/\/\S+$/i\<close>\<close>

definition rx_whole_url :: rx where
  "rx_whole_url = seqs [Bol, lit_i ''http'', opt (lit_i ''s''), lit ''://'', many1 non_space, Eol]"

definition looksLikeUrl :: "string \<Rightarrow> bool" where
  "looksLikeUrl maybeUrl = test rx_whole_url (trim maybeUrl)"

text \<open>\<^verbatim>\<open>s.replace(/^[\\/]+/, "")\<close>\<close>

definition stripLeadingSlashes :: "string \<Rightarrow> string" where
  "stripLeadingSlashes s = dropWhile (any_of [bslash, CHR ''/'']) s"

datatype normalized = Reject string | Rewrite string | Ok string

text \<open>\<^verbatim>\<open>/^start\s*$/i\<close>, \<^verbatim>\<open>/^start\s+""\s*$/i\<close> and \<^verbatim>\<open>/^start\s+"[^"]*"\s*$/i\<close>\<close>

definition rx_bare_start :: rx where
  "rx_bare_start = seqs [Bol, lit_i ''start'', Star is_space, Eol]"

definition rx_start_empty_title :: rx where
  "rx_start_empty_title = seqs [Bol, lit_i ''start'', many1 is_space, lit [dquote, dquote],
     Star is_space, Eol]"

definition rx_start_title_only :: rx where
  "rx_start_title_only = seqs [Bol, lit_i ''start'', many1 is_space, lit [dquote],
     Star (none_of [dquote]), lit [dquote], Star is_space, Eol]"

text \<open>The optional group \<^verbatim>\<open>(\s+""\s*)?\<close> the remaining patterns share.\<close>

definition rx_opt_title :: rx where
  "rx_opt_title = opt (Grp 1 (seqs [many1 is_space, lit [dquote, dquote], Star is_space]))"

text \<open>\<^verbatim>\<open>/^start(\s+""\s*)?\s+([\\/]+)(https?:\/\/\S+)\s*$/i\<close>\<close>

definition rx_start_slashed_url :: rx where
  "rx_start_slashed_url = seqs [Bol, lit_i ''start'', rx_opt_title, many1 is_space,
     Grp 2 (many1 (any_of [bslash, CHR ''/''])),
     Grp 3 (seqs [lit_i ''http'', opt (lit_i ''s''), lit ''://'', many1 non_space]),
     Star is_space, Eol]"

text \<open>\<^verbatim>\<open>/^start(\s+""\s*)?\s+\\\\\s*$/i\<close> and \<^verbatim>\<open>/^start(\s+""\s*)?\s+\\\s*$/i\<close>\<close>

definition rx_start_unc_root2 :: rx where
  "rx_start_unc_root2 = seqs [Bol, lit_i ''start'', rx_opt_title, many1 is_space,
     lit [bslash, bslash], Star is_space, Eol]"

definition rx_start_unc_root1 :: rx where
  "rx_start_unc_root1 = seqs [Bol, lit_i ''start'', rx_opt_title, many1 is_space,
     lit [bslash], Star is_space, Eol]"

text \<open>\<^verbatim>\<open>/^start(\s+""\s*)?\s+(\\\\[^\\\s]+)\s*$/i\<close>\<close>

definition rx_start_unc_server :: rx where
  "rx_start_unc_server = seqs [Bol, lit_i ''start'', rx_opt_title, many1 is_space,
     Grp 2 (seqs [lit [bslash, bslash], many1 (\<lambda>c. c \<noteq> bslash \<and> \<not> is_space c)]),
     Star is_space, Eol]"

definition reason_no_target :: string where
  "reason_no_target = ''Refusing to run '' @ [squote] @ ''start'' @ [squote]
     @ '' with no target (would trigger '' @ [squote] @ ''Windows cannot find ''
     @ [bslash, bslash, squote] @ '' dialog). Specify an app or URL.''"

definition reason_slashed_url :: "string \<Rightarrow> string" where
  "reason_slashed_url stripped = ''Looks like a URL with a leading '' @ [bslash, bslash]
     @ '' or /. '' @ ''Use the URL without the leading slash, or ask the bot to browse it. ''
     @ ''Example: '' @ stripped"

definition reason_unc_root :: string where
  "reason_unc_root = ''Refusing to run an invalid Windows target path (''
     @ [bslash, bslash] @ '') that triggers a popup.''"

definition reason_unc_server :: "string \<Rightarrow> string" where
  "reason_unc_server unc2 = ''Refusing to run a malformed UNC path ('' @ unc2 @ ''). ''
     @ ''UNC paths must be like '' @ [bslash, bslash] @ ''server'' @ [bslash, bslash]
     @ ''share'' @ [bslash, bslash] @ ''...''"

definition normalizeCmdStart :: "string option \<Rightarrow> normalized" where
  "normalizeCmdStart command' =
     (let trimmed = trim (str_or_empty command') in
      if test rx_bare_start trimmed \<or> test rx_start_empty_title trimmed
         \<or> test rx_start_title_only trimmed
      then Reject reason_no_target
      else let stripped = stripLeadingSlashes trimmed in
      if stripped \<noteq> trimmed \<and> looksLikeUrl stripped
      then Reject (reason_slashed_url stripped)
      else (case match rx_start_slashed_url trimmed of
        Some (_, caps) \<Rightarrow>
          Rewrite (''start '' @ [dquote, dquote] @ '' '' @ quote_str (str_or_empty (group 3 caps)))
      | None \<Rightarrow>
          if test rx_start_unc_root2 trimmed \<or> test rx_start_unc_root1 trimmed
          then Reject reason_unc_root
          else (case match rx_start_unc_server trimmed of
            Some (_, caps) \<Rightarrow> Reject (reason_unc_server (str_or_empty (group 2 caps)))
          | None \<Rightarrow> Ok trimmed)))"

subsection \<open>\<^verbatim>\<open>executeCommand\<close>\<close>

definition pickScriptExtension :: "string \<Rightarrow> json \<Rightarrow> string + string" where
  "pickScriptExtension shell' script' =
     (if shell' = ''powershell'' then Inr ''.ps1''
      else if shell' = ''bash'' then Inr ''.sh''
      else if shell' = ''cmd'' then Inr ''.cmd''
      else (case (if js_truthy script' then shouldUsePowerShell script' else Inr False) of
              Inl message \<Rightarrow> Inl message
            | Inr forScript \<Rightarrow> Inr (if forScript then ''.ps1'' else ''.cmd'')))"

text \<open>\<^verbatim>\<open>/\bchrome\.exe\b/i\<close>, \<^verbatim>\<open>/\b--new-window\b/i\<close> and \<^verbatim>\<open>/\b--app=/i\<close>\<close>

definition rx_chrome_exe_word :: rx where
  "rx_chrome_exe_word = seqs [WordB, lit_i ''chrome.exe'', WordB]"

definition rx_new_window :: rx where
  "rx_new_window = seqs [WordB, lit_i ''--new-window'', WordB]"

definition rx_app_flag :: rx where
  "rx_app_flag = seqs [WordB, lit_i ''--app='']"

text \<open>\<^verbatim>\<open>/^start\b/i\<close>, \<^verbatim>\<open>/^chrome(\.exe)?\b/i\<close> and \<^verbatim>\<open>/\bchrome(\.exe)?\b/i\<close>\<close>

definition rx_start_word :: rx where
  "rx_start_word = seqs [Bol, lit_i ''start'', WordB]"

definition rx_chrome_first :: rx where
  "rx_chrome_first = seqs [Bol, lit_i ''chrome'', opt (lit_i ''.exe''), WordB]"

definition rx_chrome_word :: rx where
  "rx_chrome_word = seqs [WordB, lit_i ''chrome'', opt (lit_i ''.exe''), WordB]"

definition reason_invalid_target :: string where
  "reason_invalid_target = ''Refusing to run an invalid Windows target path (''
     @ [bslash, bslash] @ '').''"

definition reason_no_target_cmd :: string where
  "reason_no_target_cmd = ''Refusing to run '' @ [squote] @ ''start'' @ [squote]
     @ '' with no target (would trigger Windows '' @ [squote] @ ''cannot find ''
     @ [bslash, bslash, squote] @ '' dialog).''"

text \<open>
  The tail of \<^verbatim>\<open>executeCommand\<close>: run the command line, then, for what looks like a
  Chrome launch, check that Chrome runs. A rejected \<^verbatim>\<open>execPromise\<close> is caught by the
  function's \<^verbatim>\<open>catch\<close>.
\<close>

definition run_command_line :: "sys \<Rightarrow> string \<Rightarrow> nat \<Rightarrow> string \<Rightarrow> string \<Rightarrow> tool_result \<times> effect list" where
  "run_command_line sys cmd timeout effectiveShell cmdText =
     (case execPromise sys cmd of
        Inl (message, stdout) \<Rightarrow> (envelope False (Some message) (Some stdout), [Exec cmd timeout])
      | Inr (outText, errText) \<Rightarrow>
          if effectiveShell = ''cmd''
             \<and> (test rx_start_word cmdText \<or> test rx_chrome_first cmdText)
             \<and> test rx_chrome_word cmdText
          then (case verifyChromeRunning sys of ((running, out), effs) \<Rightarrow>
            let joined = trim (join_lines (filter (\<lambda>x. x \<noteq> [])
                  [outText, errText, if out \<noteq> [] then newline # tasklist_section out else []]))
            in if \<not> running
               then (envelope False (Some ''Chrome did not start (no chrome.exe process detected).'')
                       (Some joined), Exec cmd timeout # effs)
               else (envelope True (Some errText)
                       (Some (if joined \<noteq> [] then joined else ''Chrome started.'')),
                     Exec cmd timeout # effs))
          else (envelope True (Some errText)
                  (Some (if outText \<noteq> [] then outText
                         else if errText \<noteq> [] then errText
                         else ''Command executed successfully'')),
                [Exec cmd timeout]))"

text \<open>
  \<^verbatim>\<open>executeCommand\<close>. Its body is one \<^verbatim>\<open>try\<close>: an error thrown by
  \<^verbatim>\<open>detectShell\<close>, by \<^verbatim>\<open>pickScriptExtension\<close> or while the script file is written is
  caught and returned as a failure with the message of the error and an empty output.
  Where \<^verbatim>\<open>hasScript\<close> or \<^verbatim>\<open>hasCommand\<close> holds the value is a string, read by
  \<open>string_value\<close>.
\<close>

definition executeCommand :: "sys \<Rightarrow> tool_input \<Rightarrow> tool_result \<times> effect list" where
  "executeCommand sys inp =
     (let shell0 = (case shell inp of None \<Rightarrow> Some ''auto'' | Some s \<Rightarrow> Some s);
          timeout = (case timeout_ms inp of None \<Rightarrow> 30000 | Some t \<Rightarrow> t)
      in
      case detectShell shell0 (command inp) (script inp) (use_powershell inp) of
        Inl message \<Rightarrow> (envelope False (Some message) (Some []), [])
      | Inr effectiveShell \<Rightarrow>
     (let hasScript = (case script inp of JString s \<Rightarrow> trim s \<noteq> [] | _ \<Rightarrow> False);
          hasCommand = (case command inp of JString c \<Rightarrow> trim c \<noteq> [] | _ \<Rightarrow> False)
      in
      if \<not> hasScript \<and> \<not> hasCommand
      then (envelope False (Some ''No command/script provided.'') (Some []), [])
      else if hasScript then
        (case pickScriptExtension effectiveShell (script inp) of
           Inl message \<Rightarrow> (envelope False (Some message) (Some []), [])
         | Inr ext \<Rightarrow>
        (case writeTempScriptFile sys (the (string_value (script inp))) ext (file_path inp) of
           Inl message \<Rightarrow> (envelope False (Some message) (Some []), [])
         | Inr scriptPath \<Rightarrow>
             (let cmd =
                (if effectiveShell = ''powershell''
                 then quote_str (getPowerShellExe sys)
                      @ '' -NoProfile -NonInteractive -ExecutionPolicy Bypass -File ''
                      @ quote_str scriptPath
                 else if effectiveShell = ''bash''
                 then quote_str (getGitBashExe sys) @ '' -lc ''
                      @ quote_str (''bash '' @ [squote]
                          @ map (\<lambda>c. if c = bslash then CHR ''/'' else c) scriptPath @ [squote])
                 else ''cmd.exe /d /s /c '' @ quote_str scriptPath);
                  cmdText = trim (if hasCommand then str_or_empty (string_value (command inp))
                                  else [])
              in case run_command_line sys cmd timeout effectiveShell cmdText of
                   (res, effs) \<Rightarrow> (res, ScriptWritten scriptPath # effs))))
      else if effectiveShell = ''cmd'' then
        (let chromeRewrite = rewriteStartChrome sys (string_value (command inp));
             command1 = (if changed chromeRewrite then Some (cr_command chromeRewrite)
                         else string_value (command inp))
         in
         if didTryChrome chromeRewrite then tryLaunchChromeDetached sys command1
         else if test rx_chrome_exe_word (str_or_empty command1)
                 \<and> (extractFirstUrl command1 \<noteq> None
                      \<or> test rx_new_window (str_or_empty command1)
                      \<or> test rx_app_flag (str_or_empty command1))
         then tryLaunchChromeDetached sys command1
         else (case normalizeCmdStart command1 of
           Reject reason \<Rightarrow> (envelope False (Some reason) (Some []), [])
         | other \<Rightarrow>
             (let command2 = (case other of Rewrite c \<Rightarrow> c | _ \<Rightarrow> str_or_empty command1);
                  trimmed = trim command2
              in
              if isLikelyInvalidWindowsTarget trimmed
              then (envelope False (Some reason_invalid_target) (Some []), [])
              else if test rx_bare_start trimmed \<or> test rx_start_empty_title trimmed
              then (envelope False (Some reason_no_target_cmd) (Some []), [])
              else run_command_line sys
                     (''cmd.exe /d /s /c '' @ quote_str (escape_dquotes command2))
                     timeout effectiveShell trimmed)))
      else if effectiveShell = ''powershell'' then
        run_command_line sys
          (quote_str (getPowerShellExe sys)
           @ '' -NoProfile -NonInteractive -ExecutionPolicy Bypass -EncodedCommand ''
           @ toPowerShellEncodedCommand sys (the (string_value (command inp))))
          timeout effectiveShell (trim (the (string_value (command inp))))
      else if effectiveShell = ''bash'' then
        run_command_line sys
          (quote_str (getGitBashExe sys) @ '' -lc ''
           @ quote_str (escape_dquotes (the (string_value (command inp)))))
          timeout effectiveShell (trim (the (string_value (command inp))))
      else
        (let safeCmd = trim (the (string_value (command inp))) in
         if test rx_bare_start safeCmd \<or> test rx_start_empty_title safeCmd
         then (envelope False (Some reason_no_target_cmd) (Some []), [])
         else run_command_line sys
                (''cmd.exe /d /s /c '' @ quote_str (escape_dquotes (the (string_value (command inp)))))
                timeout effectiveShell safeCmd)))"


section \<open>Tool-use orchestrator (src/telegram.js)\<close>

subsection \<open>Messages\<close>

datatype role = User | Assistant

text \<open>
  A content block of a response: text, a tool-use request (identifier, tool name,
  input), or a block of another type.
\<close>

datatype block =
    TextBlock string
  | ToolUse string string tool_input
  | OtherBlock

record tool_result_block =
  tool_use_id :: string
  payload :: tool_result

text \<open>
  The \<^verbatim>\<open>content\<close> of a tool result in the source is \<^verbatim>\<open>JSON.stringify(toolResult)\<close>;
  the model keeps the object that is serialised.
\<close>

datatype content = Text string | Blocks "block list" | ToolResults "tool_result_block list"

datatype message = Message (role: role) (content: content)

record response =
  stop_reason :: string
  resp_content :: "block list"

definition MAX_HISTORY_MESSAGES :: nat where
  "MAX_HISTORY_MESSAGES = 40"

definition trimHistory :: "message list \<Rightarrow> message list" where
  "trimHistory messages =
     (if length messages \<le> MAX_HISTORY_MESSAGES then messages
      else drop (length messages - MAX_HISTORY_MESSAGES) messages)"

subsection \<open>The outside world\<close>

text \<open>
  The reasoning service and the tools are parameters over a state of the outside world
  \<open>'w\<close>: \<^verbatim>\<open>anthropic.messages.create\<close> takes whether extended thinking is requested
  and the messages and gives \<open>Inl\<close> the message of the error it throws or \<open>Inr\<close> the
  response; \<^verbatim>\<open>toolApi.runTool\<close> takes the tool name and input and gives \<open>Inl\<close> the
  message of the error it throws or \<open>Inr\<close> the result envelope. What the orchestrator
  does to the world is logged: each submission to the service, each dispatch of a tool
  with what it gave, each chat message sent, and a mark each time the results of a round
  have been folded into the conversation.
\<close>

record 'w services =
  messages_create :: "'w \<Rightarrow> bool \<Rightarrow> message list \<Rightarrow> (string + response) \<times> 'w"
  runTool :: "'w \<Rightarrow> string \<Rightarrow> tool_input \<Rightarrow> (string + tool_result) \<times> 'w"

datatype event =
    Submitted bool "message list"
  | Dispatched string tool_input "string + tool_result"
  | Sent string
  | Folded
  | LongMessage string

record config =
  STEP_CONFIRM :: bool
  MAX_AGENT_ITERATIONS :: nat
  DEEP_THINKING :: bool
  STOP_AFTER_SUCCESSFUL_BROWSE :: bool

record options =
  allowTools :: bool
  deepThinking :: bool
  stepConfirm :: bool

subsection \<open>One assistant response: the loop over its tool-use requests\<close>

definition is_tool_use :: "block \<Rightarrow> bool" where
  "is_tool_use b = (case b of ToolUse _ _ _ \<Rightarrow> True | _ \<Rightarrow> False)"

definition fingerprintBrowserAction :: "string \<Rightarrow> tool_input \<Rightarrow> string option" where
  "fingerprintBrowserAction name inp =
     (if name = ''browse_website'' then
        (let u = trim (str_or_empty (url inp)); t = trim (str_or_empty (task inp)) in
         if u = [] then None else Some (''browse:'' @ u @ ''|'' @ t))
      else if name = ''execute_command'' then
        (let c = trim (js_str_or_empty (command inp)) in
         if c = [] then None
         else let isChrome = test rx_chrome_word c;
                  hasUrl = test rx_url c;
                  isStartUrl = (test rx_start_word c \<and> hasUrl);
                  isChromeLaunch = (isChrome \<and> (hasUrl \<or> test rx_start_word c))
              in if \<not> isStartUrl \<and> \<not> isChromeLaunch then None else Some (''exec:'' @ c))
      else None)"

definition deferred_result :: tool_result where
  "deferred_result =
     \<lparr>success = False, deferred = True, deduped = False,
      error = Some ''Deferred by step-by-step mode. The agent should continue in a follow-up step.'',
      res_note = None, fingerprint = None, res_output = None\<rparr>"

definition deduped_result :: "string \<Rightarrow> tool_result" where
  "deduped_result fp =
     \<lparr>success = True, deferred = False, deduped = True, error = None,
      res_note = Some ''Skipped duplicate browser action (already executed in this request).'',
      fingerprint = Some fp, res_output = None\<rparr>"

definition unknown_tool_result :: "string \<Rightarrow> tool_result" where
  "unknown_tool_result name = envelope False (Some (''Unknown tool: '' @ name)) None"

text \<open>The variables of the \<^verbatim>\<open>for\<close> loop, and the world and its log.\<close>

record 'w turn =
  toolResultsBlocks :: "tool_result_block list"
  executedThisResponse :: nat
  stopAfterBrowseSuccess :: bool
  executedBrowserActions :: "string set"
  world :: 'w
  log :: "event list"

text \<open>
  What the five executing branches share: \<^verbatim>\<open>safeSendMessage\<close> of a progress message
  (it never throws), \<^verbatim>\<open>runTool\<close>, and the increment of \<^verbatim>\<open>executedThisResponse\<close>.
  An error thrown by \<^verbatim>\<open>runTool\<close> leaves the loop and the run; it is returned with
  the world and log reached.
\<close>

definition call_tool ::
  "'w services \<Rightarrow> string \<Rightarrow> tool_input \<Rightarrow> string \<Rightarrow> 'w turn
   \<Rightarrow> (string \<times> 'w \<times> event list) + (tool_result \<times> 'w turn)" where
  "call_tool sv name inp progress t =
     (case runTool sv (world t) name inp of
        (Inl message, w') \<Rightarrow>
          Inl (message, w', log t @ [Sent progress, Dispatched name inp (Inl message)])
      | (Inr toolResult, w') \<Rightarrow>
          Inr (toolResult,
               t\<lparr>executedThisResponse := executedThisResponse t + 1, world := w',
                 log := log t @ [Sent progress, Dispatched name inp (Inr toolResult)]\<rparr>))"

text \<open>\<^verbatim>\<open>if (fp && toolResult && toolResult.success) executedBrowserActions.add(fp)\<close>\<close>

definition remember :: "string option \<Rightarrow> tool_result \<Rightarrow> 'w turn \<Rightarrow> 'w turn" where
  "remember fp toolResult t =
     (if fp \<noteq> None \<and> success toolResult
      then t\<lparr>executedBrowserActions := insert (the fp) (executedBrowserActions t)\<rparr>
      else t)"

definition push_result :: "string \<Rightarrow> tool_result \<Rightarrow> 'w turn \<Rightarrow> 'w turn" where
  "push_result tid toolResult t =
     t\<lparr>toolResultsBlocks := toolResultsBlocks t @ [\<lparr>tool_use_id = tid, payload = toolResult\<rparr>]\<rparr>"

definition execute_preview :: "tool_input \<Rightarrow> string" where
  "execute_preview inp =
     (if js_truthy (script inp)
      then ''[script:'' @ (if truthy (shell inp) then the (shell inp) else ''auto'') @ ''] ''
           @ str_or_empty (file_path inp)
      else js_str_or_empty (command inp))"

text \<open>
  The body of the \<^verbatim>\<open>for\<close> loop for one request (its identifier, name and input).
  The progress message of the healer has two dashes outside ASCII in the source; they are
  hyphens here.
\<close>

definition tool_step ::
  "'w services \<Rightarrow> config \<Rightarrow> bool \<Rightarrow> string \<Rightarrow> string \<Rightarrow> tool_input \<Rightarrow> 'w turn
   \<Rightarrow> (string \<times> 'w \<times> event list) + 'w turn" where
  "tool_step sv cfg step_confirm tid name inp t =
     (let shouldExecute = \<not> (step_confirm \<and> executedThisResponse t \<ge> 1);
          fp = fingerprintBrowserAction name inp
      in
      if \<not> shouldExecute then Inr (push_result tid deferred_result t)
      else if fp \<noteq> None \<and> the fp \<in> executedBrowserActions t
      then Inr (push_result tid (deduped_result (the fp)) t)
      else if name = ''execute_command'' then
        (case call_tool sv ''execute_command'' inp
                (''Executing: '' @ (if execute_preview inp \<noteq> [] then execute_preview inp
                                    else ''(empty)'')) t of
           Inl e \<Rightarrow> Inl e
         | Inr (toolResult, t') \<Rightarrow> Inr (push_result tid toolResult (remember fp toolResult t')))
      else if name = ''take_screenshot'' then
        (case call_tool sv ''take_screenshot'' inp ''Taking screenshot...'' t of
           Inl e \<Rightarrow> Inl e
         | Inr (toolResult, t') \<Rightarrow> Inr (push_result tid toolResult t'))
      else if name = ''capture_webcam_photo'' then
        (case call_tool sv ''capture_webcam_photo'' inp ''Capturing webcam photo...'' t of
           Inl e \<Rightarrow> Inl e
         | Inr (toolResult, t') \<Rightarrow> Inr (push_result tid toolResult t'))
      else if name = ''browse_website'' then
        (case call_tool sv ''browse_website'' inp (''Browsing: '' @ str_or_empty (url inp)) t of
           Inl e \<Rightarrow> Inl e
         | Inr (toolResult, t') \<Rightarrow>
             Inr (push_result tid toolResult
                    ((remember fp toolResult t')
                       \<lparr>stopAfterBrowseSuccess :=
                          (stopAfterBrowseSuccess t'
                           \<or> (STOP_AFTER_SUCCESSFUL_BROWSE cfg \<and> success toolResult))\<rparr>)))
      else if name = ''run_healer'' then
        (case call_tool sv ''run_healer'' inp
                ''Running healer (installing dependencies, updating paths - may take 2-5 min)...'' t of
           Inl e \<Rightarrow> Inl e
         | Inr (toolResult, t') \<Rightarrow> Inr (push_result tid toolResult t'))
      else Inr (push_result tid (unknown_tool_result name) t))"

fun run_tool_uses ::
  "'w services \<Rightarrow> config \<Rightarrow> bool \<Rightarrow> block list \<Rightarrow> 'w turn
   \<Rightarrow> (string \<times> 'w \<times> event list) + 'w turn" where
  "run_tool_uses sv cfg step_confirm [] t = Inr t"
| "run_tool_uses sv cfg step_confirm (ToolUse tid name inp # toolUses) t =
     (case tool_step sv cfg step_confirm tid name inp t of
        Inl e \<Rightarrow> Inl e
      | Inr t' \<Rightarrow> run_tool_uses sv cfg step_confirm toolUses t')"
| "run_tool_uses sv cfg step_confirm (_ # toolUses) t =
     run_tool_uses sv cfg step_confirm toolUses t"


subsection \<open>\<^verbatim>\<open>processWithClaude\<close>\<close>

text \<open>The variables of the \<^verbatim>\<open>while\<close> loop.\<close>

record 'w run =
  iterations :: nat
  executed :: "string set"
  convo :: "message list"
  current :: response
  run_world :: 'w
  run_log :: "event list"

text \<open>What \<^verbatim>\<open>processWithClaude\<close> returns, with the world and log it leaves.\<close>

record 'w outcome =
  replyText :: string
  updatedMessages :: "message list"
  end_world :: 'w
  end_log :: "event list"

text \<open>
  \<^verbatim>\<open>/continue\s+or\s+stop\?/i\<close> and
  \<^verbatim>\<open>/would you like me to (take|continue|proceed)/i\<close>
\<close>

definition rx_continue_or_stop :: rx where
  "rx_continue_or_stop = seqs [lit_i ''continue'', many1 is_space, lit_i ''or'', many1 is_space,
     lit_i ''stop?'']"

definition rx_would_you_like :: rx where
  "rx_would_you_like = seqs [lit_i ''would you like me to '',
     alts (lit_i ''take'') [lit_i ''continue'', lit_i ''proceed'']]"

definition block_texts :: "block list \<Rightarrow> string list" where
  "block_texts bs = concat (map (\<lambda>b. case b of TextBlock t \<Rightarrow> [t] | _ \<Rightarrow> []) bs)"

definition final_text :: "block list \<Rightarrow> string" where
  "final_text bs =
     trim (join_lines
       (filter (\<lambda>line. \<not> test rx_would_you_like line)
         (filter (\<lambda>line. \<not> test rx_continue_or_stop line)
           (split_lines (join_lines (block_texts bs))))))"

text \<open>The code after the \<^verbatim>\<open>while\<close> loop.\<close>

definition finish :: "'w run \<Rightarrow> 'w outcome" where
  "finish r =
     (let textContent = final_text (resp_content (current r)) in
      \<lparr>replyText = (if textContent \<noteq> [] then textContent else ''Task completed.''),
       updatedMessages = convo r @ [Message Assistant (Blocks (resp_content (current r)))],
       end_world = run_world r, end_log = run_log r\<rparr>)"

text \<open>
  The resubmission at the end of the loop body: with thinking when \<^verbatim>\<open>deepThinking\<close>
  is set, and once more without thinking when that call throws.
\<close>

definition resubmit ::
  "'w services \<Rightarrow> bool \<Rightarrow> message list \<Rightarrow> 'w \<Rightarrow> event list
   \<Rightarrow> (string \<times> 'w \<times> event list) + (response \<times> 'w \<times> event list)" where
  "resubmit sv deep msgs w lg =
     (case messages_create sv w deep msgs of
        (Inr resp, w') \<Rightarrow> Inr (resp, w', lg @ [Submitted deep msgs])
      | (Inl _, w') \<Rightarrow>
          (case messages_create sv w' False msgs of
             (Inr resp, w'') \<Rightarrow> Inr (resp, w'', lg @ [Submitted deep msgs, Submitted False msgs])
           | (Inl message, w'') \<Rightarrow>
               Inl (message, w'', lg @ [Submitted deep msgs, Submitted False msgs])))"

text \<open>
  The \<^verbatim>\<open>while\<close> loop. \<open>Inl\<close> is an error thrown inside it; \<open>Inr\<close> is the value
  returned, from inside the loop after a successful browse or by the code after it.
\<close>

function tool_loop ::
  "'w services \<Rightarrow> config \<Rightarrow> options \<Rightarrow> 'w run \<Rightarrow> (string \<times> 'w \<times> event list) + 'w outcome" where
  "tool_loop sv cfg opts r =
     (if stop_reason (current r) = ''tool_use'' then
        (if iterations r + 1 > MAX_AGENT_ITERATIONS cfg then Inr (finish (r\<lparr>iterations := iterations r + 1\<rparr>))
         else if \<not> allowTools opts then Inr (finish (r\<lparr>iterations := iterations r + 1\<rparr>))
         else let toolUses = filter is_tool_use (resp_content (current r)) in
           if toolUses = [] then Inr (finish (r\<lparr>iterations := iterations r + 1\<rparr>))
           else
             (case run_tool_uses sv cfg (stepConfirm opts) toolUses
                     \<lparr>toolResultsBlocks = [], executedThisResponse = 0,
                      stopAfterBrowseSuccess = False, executedBrowserActions = executed r,
                      world = run_world r, log = run_log r\<rparr> of
                Inl e \<Rightarrow> Inl e
              | Inr t \<Rightarrow>
                  (let convo' = convo r @ [Message Assistant (Blocks (resp_content (current r))),
                                           Message User (ToolResults (toolResultsBlocks t))]
                   in
                   if stopAfterBrowseSuccess t
                   then Inr \<lparr>replyText = ''Browser task completed.'', updatedMessages = convo',
                             end_world = world t, end_log = log t @ [Folded]\<rparr>
                   else
                     (case resubmit sv (deepThinking opts) convo' (world t) (log t @ [Folded]) of
                        Inl e \<Rightarrow> Inl e
                      | Inr (resp, w', lg') \<Rightarrow>
                          tool_loop sv cfg opts
                            \<lparr>iterations = iterations r + 1,
                             executed = executedBrowserActions t,
                             convo = convo', current = resp,
                             run_world = w', run_log = lg'\<rparr>))))
      else Inr (finish r))"
  by pat_completeness auto
termination
  by (relation "measure (\<lambda>(sv, cfg, opts, r). MAX_AGENT_ITERATIONS cfg - iterations r)") auto

declare tool_loop.simps [simp del]

text \<open>
  The first submission: with thinking when \<^verbatim>\<open>deepThinking\<close> is set, falling back to
  a plain call when that throws; a plain call that throws is rethrown.
\<close>

definition first_submit ::
  "'w services \<Rightarrow> bool \<Rightarrow> message list \<Rightarrow> 'w \<Rightarrow> event list
   \<Rightarrow> (string \<times> 'w \<times> event list) + (response \<times> 'w \<times> event list)" where
  "first_submit sv deep msgs w lg =
     (case messages_create sv w deep msgs of
        (Inr resp, w') \<Rightarrow> Inr (resp, w', lg @ [Submitted deep msgs])
      | (Inl message, w') \<Rightarrow>
          if deep
          then (case messages_create sv w' False msgs of
                  (Inr resp, w'') \<Rightarrow> Inr (resp, w'', lg @ [Submitted deep msgs, Submitted False msgs])
                | (Inl message', w'') \<Rightarrow>
                    Inl (message', w'', lg @ [Submitted deep msgs, Submitted False msgs]))
          else Inl (message, w', lg @ [Submitted deep msgs]))"

text \<open>What the \<^verbatim>\<open>catch\<close> of \<^verbatim>\<open>processWithClaude\<close> returns.\<close>

definition caught :: "message list \<Rightarrow> string \<times> 'w \<times> event list \<Rightarrow> 'w outcome" where
  "caught messages e =
     (case e of (message, w, lg) \<Rightarrow>
        \<lparr>replyText = ''Error: '' @ message, updatedMessages = messages,
         end_world = w, end_log = lg\<rparr>)"

text \<open>The body of the \<^verbatim>\<open>try\<close>, and \<^verbatim>\<open>processWithClaude\<close> with its \<^verbatim>\<open>catch\<close>.\<close>

definition try_body ::
  "'w services \<Rightarrow> config \<Rightarrow> options \<Rightarrow> message list \<Rightarrow> 'w \<Rightarrow> event list
   \<Rightarrow> (string \<times> 'w \<times> event list) + 'w outcome" where
  "try_body sv cfg opts messages w lg =
     (case first_submit sv (deepThinking opts) messages w lg of
        Inl e \<Rightarrow> Inl e
      | Inr (resp, w', lg') \<Rightarrow>
          tool_loop sv cfg opts
            \<lparr>iterations = 0, executed = {}, convo = messages, current = resp,
             run_world = w', run_log = lg'\<rparr>)"

definition processWithClaude ::
  "'w services \<Rightarrow> config \<Rightarrow> options \<Rightarrow> message list \<Rightarrow> 'w \<Rightarrow> event list \<Rightarrow> 'w outcome" where
  "processWithClaude sv cfg opts messages w lg =
     (case try_body sv cfg opts messages w lg of
        Inl e \<Rightarrow> caught messages e
      | Inr out \<Rightarrow> out)"

subsection \<open>\<^verbatim>\<open>handleUserText\<close> and the session store\<close>

text \<open>
  \<^verbatim>\<open>chatHistory\<close> is a map from chat identifiers to histories. The result is the
  store after the request and the outcome of the run, whose log ends with the reply
  handed to \<^verbatim>\<open>sendLongMessage\<close>.
\<close>

definition handleUserText ::
  "'w services \<Rightarrow> config \<Rightarrow> ('c \<rightharpoonup> message list) \<Rightarrow> 'c \<Rightarrow> string \<Rightarrow> 'w \<Rightarrow> event list
   \<Rightarrow> ('c \<rightharpoonup> message list) \<times> 'w outcome" where
  "handleUserText sv cfg chatHistory chatId text' w lg =
     (let prior = (case chatHistory chatId of None \<Rightarrow> [] | Some h \<Rightarrow> h);
          next = prior @ [Message User (Text text')];
          out = processWithClaude sv cfg
                  \<lparr>allowTools = True, deepThinking = DEEP_THINKING cfg,
                   stepConfirm = STEP_CONFIRM cfg\<rparr>
                  (trimHistory next) w lg
      in (chatHistory(chatId \<mapsto> trimHistory (updatedMessages out)),
          out\<lparr>end_log := end_log out @ [LongMessage (replyText out)]\<rparr>))"


subsection \<open>Reading conversations and logs\<close>


text \<open>The names of the tools the orchestrator dispatches.\<close>

definition known_tools :: "string list" where
  "known_tools = [''execute_command'', ''take_screenshot'', ''capture_webcam_photo'',
     ''browse_website'', ''run_healer'']"

text \<open>The number of tool-execution rounds a log records.\<close>

definition rounds :: "event list \<Rightarrow> nat" where
  "rounds lg = length (filter (\<lambda>e. e = Folded) lg)"

text \<open>
  The fingerprints of the dispatches of a log that succeeded, and whether a log never
  dispatches a fingerprinted action whose fingerprint is among \<open>done\<close> or has
  succeeded earlier in the log.
\<close>

fun succeeded :: "event list \<Rightarrow> string set" where
  "succeeded [] = {}"
| "succeeded (Dispatched name inp (Inr r) # es) =
     (case fingerprintBrowserAction name inp of
        None \<Rightarrow> succeeded es
      | Some fp \<Rightarrow> (if success r then insert fp (succeeded es) else succeeded es))"
| "succeeded (_ # es) = succeeded es"

fun no_redispatch :: "string set \<Rightarrow> event list \<Rightarrow> bool" where
  "no_redispatch done [] = True"
| "no_redispatch done (Dispatched name inp res # es) =
     (case fingerprintBrowserAction name inp of
        None \<Rightarrow> no_redispatch done es
      | Some fp \<Rightarrow> fp \<notin> done \<and> no_redispatch (done \<union> succeeded [Dispatched name inp res]) es)"
| "no_redispatch done (_ # es) = no_redispatch done es"

text \<open>
  For the proofs about the loop: whether a pass enters the loop body, the variables
  the \<^verbatim>\<open>for\<close> loop starts from, the conversation after the results of a round are
  folded in, and the invariant that the set of executed fingerprints holds every
  fingerprint that succeeded in the log and that the log has no second dispatch.
\<close>

definition enters :: "config \<Rightarrow> options \<Rightarrow> 'w run \<Rightarrow> bool" where
  "enters cfg opts r =
     (stop_reason (current r) = ''tool_use'' \<and> iterations r < MAX_AGENT_ITERATIONS cfg
      \<and> allowTools opts \<and> filter is_tool_use (resp_content (current r)) \<noteq> [])"

definition fresh_turn :: "'w run \<Rightarrow> 'w turn" where
  "fresh_turn r =
     \<lparr>toolResultsBlocks = [], executedThisResponse = 0, stopAfterBrowseSuccess = False,
      executedBrowserActions = executed r, world = run_world r, log = run_log r\<rparr>"

definition folded :: "'w run \<Rightarrow> 'w turn \<Rightarrow> message list" where
  "folded r t = convo r @ [Message Assistant (Blocks (resp_content (current r))),
                           Message User (ToolResults (toolResultsBlocks t))]"

definition recorded :: "string set \<Rightarrow> event list \<Rightarrow> bool" where
  "recorded E lg = (succeeded lg \<subseteq> E \<and> no_redispatch {} lg)"

section \<open>Concrete inputs\<close>

text \<open>
  A machine where Chrome is installed at its standard place, processes start, every
  command line prints \<^verbatim>\<open>chrome.exe 4242\<close> and scripts are written to \<^verbatim>\<open>script.cmd\<close>
  and the like; and the input with no field set.
\<close>

definition demo_sys :: sys where
  "demo_sys =
     \<lparr>resolveChromeExe = ''C:'' @ [bslash] @ ''Program Files'' @ [bslash] @ ''Google''
        @ [bslash] @ ''Chrome'' @ [bslash] @ ''Application'' @ [bslash] @ ''chrome.exe'',
      getPowerShellExe = ''powershell.exe'',
      getGitBashExe = ''bash.exe'',
      spawn = (\<lambda>exe args. None),
      execPromise = (\<lambda>cmd. Inr (''chrome.exe 4242'', [])),
      writeTempScriptFile = (\<lambda>text' ext preferred. Inr (''script'' @ ext)),
      toPowerShellEncodedCommand = (\<lambda>text'. ''BASE64'')\<rparr>"

definition no_input :: tool_input where
  "no_input =
     \<lparr>command = JUndefined, script = JUndefined, shell = None, file_path = None, timeout_ms = None,
      cwd = None, use_powershell = None, url = None, task = None\<rparr>"

text \<open>
  A reasoning service that answers its \<open>n\<close>-th call with the \<open>n\<close>-th response of a
  script and with a closing response after that, and tools that always succeed; the
  world counts the calls of the service. And a service whose every call throws.
\<close>

definition ok_result :: tool_result where
  "ok_result = envelope True None (Some ''ok'')"

definition scripted :: "response list \<Rightarrow> response \<Rightarrow> nat services" where
  "scripted rs closing =
     \<lparr>messages_create = (\<lambda>w deep msgs. (Inr (if w < length rs then rs ! w else closing), Suc w)),
      runTool = (\<lambda>w name inp. (Inr ok_result, w))\<rparr>"

definition unreachable :: "nat services" where
  "unreachable =
     \<lparr>messages_create = (\<lambda>w deep msgs. (Inl ''Connection error.'', Suc w)),
      runTool = (\<lambda>w name inp. (Inr ok_result, w))\<rparr>"

definition asks :: "block list \<Rightarrow> response" where
  "asks bs = \<lparr>stop_reason = ''tool_use'', resp_content = bs\<rparr>"

definition says :: "string \<Rightarrow> response" where
  "says t = \<lparr>stop_reason = ''end_turn'', resp_content = [TextBlock t]\<rparr>"


definition screenshot :: "string \<Rightarrow> block" where
  "screenshot tid = ToolUse tid ''take_screenshot'' no_input"

definition browse :: "string \<Rightarrow> block" where
  "browse tid = ToolUse tid ''browse_website'' (no_input\<lparr>url := Some ''https://example.com''\<rparr>)"

definition demo_config :: config where
  "demo_config =
     \<lparr>STEP_CONFIRM = True, MAX_AGENT_ITERATIONS = 3, DEEP_THINKING = False,
      STOP_AFTER_SUCCESSFUL_BROWSE = True\<rparr>"

definition demo_options :: options where
  "demo_options = \<lparr>allowTools = True, deepThinking = False, stepConfirm = True\<rparr>"

definition hello :: "message list" where
  "hello = [Message User (Text ''hello'')]"

text \<open>
  The variables of the \<^verbatim>\<open>for\<close> loop at the start of the first response of a run, and
  after a response with two screenshot requests \<^verbatim>\<open>a\<close> and \<^verbatim>\<open>b\<close> in step mode.
\<close>

definition demo_turn :: "nat turn" where
  "demo_turn =
     \<lparr>toolResultsBlocks = [], executedThisResponse = 0, stopAfterBrowseSuccess = False,
      executedBrowserActions = {}, world = 0, log = []\<rparr>"


definition browse_other :: "string \<Rightarrow> block" where
  "browse_other tid = ToolUse tid ''browse_website'' (no_input\<lparr>url := Some ''https://example.org''\<rparr>)"

text \<open>
  Two commands: \<^verbatim>\<open>start\<close> with a quoted title that names a drive path to
  \<^verbatim>\<open>chrome.exe\<close>, and a URL with a leading backslash whose path ends in
  \<^verbatim>\<open>chrome.exe\<close>.
\<close>

definition start_chrome_title :: string where
  "start_chrome_title = ''start '' @ [dquote] @ ''C:'' @ [bslash] @ ''chrome.exe'' @ [dquote]"

definition slashed_chrome_url :: string where
  "slashed_chrome_url = [bslash] @ ''https://example.com/chrome.exe''"

section \<open>Properties of the command dispatcher\<close>

subsection \<open>The matcher computes the meaning of a pattern\<close>

lemma after_simps [simp]: "after p [] = p" "after p (c # w) = after (Some c) w"
  "after (after p u) v = after p (u @ v)"
  by (auto simp: after_def)

lemma star_runs_sound:
  "(p', s', caps') \<in> set (star_runs P p s caps) \<Longrightarrow>
     \<exists>w. s = w @ s' \<and> (\<forall>c\<in>set w. P c) \<and> p' = after p w \<and> caps' = caps"
proof (induction s arbitrary: p)
  case Nil
  then show ?case by simp
next
  case (Cons c cs)
  from Cons.prems consider (more) "P c" "(p', s', caps') \<in> set (star_runs P (Some c) cs caps)"
    | (stop) "p' = p" "s' = c # cs" "caps' = caps"
    by (auto split: if_splits)
  then show ?case
  proof cases
    case more
    from Cons.IH[OF more(2)] obtain w where
      "cs = w @ s'" "\<forall>x\<in>set w. P x" "p' = after (Some c) w" "caps' = caps" by blast
    with more(1) show ?thesis by (intro exI[of _ "c # w"]) simp
  next
    case stop
    then show ?thesis by (intro exI[of _ "[]"]) simp
  qed
qed

lemma star_runs_complete:
  "\<forall>c\<in>set w. P c \<Longrightarrow> (after p w, s', caps) \<in> set (star_runs P p (w @ s') caps)"
proof (induction w arbitrary: p)
  case Nil
  then show ?case by (cases s') simp_all
next
  case (Cons c w)
  then show ?case by simp
qed

lemma runs_sound:
  "(p', s', caps') \<in> set (runs r (p, s, caps)) \<Longrightarrow>
     \<exists>w. s = w @ s' \<and> sem r p w s' \<and> p' = after p w"
proof (induction r arbitrary: p s caps p' s' caps')
  case (Chr P)
  then show ?case by (auto split: list.splits if_splits)
next
  case (Star P)
  from star_runs_sound[of p' s' caps' P p s caps] Star show ?case by auto
next
  case (Seq a b)
  from Seq.prems obtain pm sm cm where
    a: "(pm, sm, cm) \<in> set (runs a (p, s, caps))" and b: "(p', s', caps') \<in> set (runs b (pm, sm, cm))"
    by auto
  from Seq.IH(1)[OF a] obtain u where u: "s = u @ sm" "sem a p u sm" "pm = after p u" by blast
  from Seq.IH(2)[OF b] obtain v where v: "sm = v @ s'" "sem b pm v s'" "p' = after pm v" by blast
  from u v show ?case by (intro exI[of _ "u @ v"]) auto
next
  case (Alt a b)
  from Alt.prems have "(p', s', caps') \<in> set (runs a (p, s, caps))
      \<or> (p', s', caps') \<in> set (runs b (p, s, caps))" by simp
  then show ?case
  proof
    assume "(p', s', caps') \<in> set (runs a (p, s, caps))"
    from Alt.IH(1)[OF this] show ?thesis by auto
  next
    assume "(p', s', caps') \<in> set (runs b (p, s, caps))"
    from Alt.IH(2)[OF this] show ?thesis by auto
  qed
next
  case Eps
  then show ?case by simp
next
  case (Grp n r)
  from Grp.prems obtain c' where "(p', s', c') \<in> set (runs r (p, s, caps))" by auto
  from Grp.IH[OF this] show ?case by simp
next
  case WordB
  then show ?case by (auto split: if_splits)
next
  case Bol
  then show ?case by (auto split: if_splits)
next
  case Eol
  then show ?case by (auto split: if_splits)
qed

lemma runs_complete:
  "sem r p w s' \<Longrightarrow> \<exists>caps'. (after p w, s', caps') \<in> set (runs r (p, w @ s', caps))"
proof (induction r arbitrary: p w s' caps)
  case (Chr P)
  then show ?case by auto
next
  case (Star P)
  then show ?case using star_runs_complete[of w P p s' caps] by auto
next
  case (Seq a b)
  from Seq.prems obtain u v where w: "w = u @ v" and a: "sem a p u (v @ s')"
    and b: "sem b (after p u) v s'" by auto
  from Seq.IH(1)[OF a, of caps] obtain cm where
    m: "(after p u, v @ s', cm) \<in> set (runs a (p, u @ v @ s', caps))" by blast
  from Seq.IH(2)[OF b, of cm] obtain caps' where
    e: "(after (after p u) v, s', caps') \<in> set (runs b (after p u, v @ s', cm))" by blast
  from m e show ?case unfolding w by (intro exI[of _ caps']) (auto intro!: bexI[OF _ m])
next
  case (Alt a b)
  then show ?case by (auto; blast)
next
  case Eps
  then show ?case by simp
next
  case (Grp n r)
  from Grp.prems have "sem r p w s'" by simp
  from Grp.IH[OF this, of caps] obtain c' where
    "(after p w, s', c') \<in> set (runs r (p, w @ s', caps))" by blast
  then show ?case by (auto intro!: exI image_eqI[where x="(after p w, s', c')"])
next
  case WordB
  then show ?case by simp
next
  case Bol
  then show ?case by simp
next
  case Eol
  then show ?case by simp
qed

lemma runs_nonempty:
  "runs r (p, s, caps) \<noteq> [] \<longleftrightarrow> (\<exists>w s'. s = w @ s' \<and> sem r p w s')"
proof
  assume "runs r (p, s, caps) \<noteq> []"
  then obtain st where "st \<in> set (runs r (p, s, caps))"
    by (cases "runs r (p, s, caps)") auto
  moreover obtain p' s' caps' where "st = (p', s', caps')" by (rule prod_cases3)
  ultimately have "(p', s', caps') \<in> set (runs r (p, s, caps))" by simp
  from runs_sound[OF this] show "\<exists>w s'. s = w @ s' \<and> sem r p w s'" by blast
next
  assume "\<exists>w s'. s = w @ s' \<and> sem r p w s'"
  then obtain w s' where "s = w @ s'" "sem r p w s'" by blast
  with runs_complete[of r p w s' caps] show "runs r (p, s, caps) \<noteq> []" by auto
qed

lemma search_Some:
  "search r p s \<noteq> None \<longleftrightarrow> (\<exists>u v. s = u @ v \<and> runs r (after p u, v, []) \<noteq> [])"
proof (induction s arbitrary: p)
  case Nil
  then show ?case by (auto split: list.splits)
next
  case (Cons c cs)
  show ?case
  proof (cases "runs r (p, c # cs, [])")
    case Nil
    have "(\<exists>u v. c # cs = u @ v \<and> runs r (after p u, v, []) \<noteq> [])
          \<longleftrightarrow> (\<exists>u v. cs = u @ v \<and> runs r (after (Some c) u, v, []) \<noteq> [])"
    proof
      assume "\<exists>u v. c # cs = u @ v \<and> runs r (after p u, v, []) \<noteq> []"
      then obtain u v where uv: "c # cs = u @ v" "runs r (after p u, v, []) \<noteq> []" by blast
      show "\<exists>u v. cs = u @ v \<and> runs r (after (Some c) u, v, []) \<noteq> []"
      proof (cases u)
        case Nil
        with uv \<open>runs r (p, c # cs, []) = []\<close> show ?thesis by simp
      next
        case (Cons x u')
        with uv show ?thesis by (intro exI[of _ u'] exI[of _ v]) auto
      qed
    next
      assume "\<exists>u v. cs = u @ v \<and> runs r (after (Some c) u, v, []) \<noteq> []"
      then obtain u v where "cs = u @ v" "runs r (after (Some c) u, v, []) \<noteq> []" by blast
      then show "\<exists>u v. c # cs = u @ v \<and> runs r (after p u, v, []) \<noteq> []"
        by (intro exI[of _ "c # u"] exI[of _ v]) simp
    qed
    with Nil Cons.IH[of "Some c"] show ?thesis by simp
  next
    case (Cons st sts)
    then have "runs r (after p [], c # cs, []) \<noteq> []" by simp
    then have "\<exists>u v. c # cs = u @ v \<and> runs r (after p u, v, []) \<noteq> []"
      by (intro exI[of _ "[]"] exI[of _ "c # cs"]) simp
    with Cons show ?thesis by (auto split: prod.splits)
  qed
qed

theorem test_sem:
  "test r s \<longleftrightarrow> (\<exists>u w v. s = u @ w @ v \<and> sem r (after None u) w v)"
  unfolding test_def match_def search_Some runs_nonempty by blast

lemma sem_seqs_Nil [simp]: "sem (seqs []) p w s' \<longleftrightarrow> w = []"
  by (simp add: seqs_def)

lemma sem_seqs_Cons [simp]:
  "sem (seqs (r # rs)) p w s' \<longleftrightarrow>
     (\<exists>u v. w = u @ v \<and> sem r p u (v @ s') \<and> sem (seqs rs) (after p u) v s')"
  by (simp add: seqs_def)

lemma sem_Chr_Seq:
  "sem (Seq (Chr P) r) p w s' \<longleftrightarrow> (\<exists>c v. w = c # v \<and> P c \<and> sem r (Some c) v s')"
proof
  assume "sem (Seq (Chr P) r) p w s'"
  then obtain u v c where "w = u @ v" "u = [c]" "P c" "sem r (after p u) v s'" by auto
  then show "\<exists>c v. w = c # v \<and> P c \<and> sem r (Some c) v s'" by auto
next
  assume "\<exists>c v. w = c # v \<and> P c \<and> sem r (Some c) v s'"
  then obtain c v where "w = c # v" "P c" "sem r (Some c) v s'" by blast
  then have "w = [c] @ v \<and> sem (Chr P) p [c] (v @ s') \<and> sem r (after p [c]) v s'" by simp
  then show "sem (Seq (Chr P) r) p w s'" unfolding sem.simps by blast
qed

lemma sem_lit [simp]: "sem (lit x) p w s' \<longleftrightarrow> w = x"
proof (induction x arbitrary: p w)
  case Nil
  then show ?case by (simp add: lit_def)
next
  case (Cons c x)
  have "lit (c # x) = Seq (Chr ((=) c)) (lit x)" by (simp add: lit_def)
  then show ?case using Cons by (auto simp: sem_Chr_Seq simp del: sem.simps)
qed

lemma sem_lit_i [simp]: "sem (lit_i x) p w s' \<longleftrightarrow> list_all2 ci x w"
proof (induction x arbitrary: p w)
  case Nil
  then show ?case by (simp add: lit_i_def)
next
  case (Cons c x)
  have "lit_i (c # x) = Seq (Chr (ci c)) (lit_i x)" by (simp add: lit_i_def)
  then show ?case using Cons by (auto simp: sem_Chr_Seq list_all2_Cons1 simp del: sem.simps)
qed

lemma sem_many1 [simp]: "sem (many1 P) p w s' \<longleftrightarrow> w \<noteq> [] \<and> (\<forall>c\<in>set w. P c)"
  unfolding many1_def sem_Chr_Seq by (cases w) auto

lemma sem_opt [simp]: "sem (opt r) p w s' \<longleftrightarrow> sem r p w s' \<or> w = []"
  by (simp add: opt_def)

lemma sem_alts [simp]: "sem (alts r rs) p w s' \<longleftrightarrow> sem r p w s' \<or> (\<exists>x\<in>set rs. sem x p w s')"
  unfolding alts_def by (induction rs arbitrary: r) auto

lemma str_includes_newline: "str_includes s [newline] \<longleftrightarrow> newline \<in> set s"
  by (induction s) auto

lemma test_rx_variable: "test rx_variable s \<longleftrightarrow> has_variable s"
proof
  assume "test rx_variable s"
  then obtain u w v where s: "s = u @ w @ v" and m: "sem rx_variable (after None u) w v"
    unfolding test_sem by blast
  from m obtain cs where w: "w = CHR ''$'' # cs" and cs: "cs \<noteq> []" "\<forall>c\<in>set cs. is_word c"
    by (auto simp: rx_variable_def)
  from cs obtain c cs' where c: "cs = c # cs'" "is_word c" by (cases cs) auto
  show "has_variable s"
    unfolding has_variable_def
    by (intro exI[of _ u] exI[of _ c] exI[of _ "cs' @ v"]) (simp add: s w c)
next
  assume "has_variable s"
  then obtain u c v where s: "s = u @ CHR ''$'' # c # v" and c: "is_word c"
    unfolding has_variable_def by blast
  have "sem rx_variable (after None u) [CHR ''$'', c] v"
    using c by (auto simp: rx_variable_def intro!: exI[of _ "[CHR ''$'']"])
  then show "test rx_variable s"
    unfolding test_sem using s by (intro exI[of _ u] exI[of _ "[CHR ''$'', c]"] exI[of _ v]) simp
qed

subsection \<open>The shell heuristic\<close>

lemma sem_verbs:
  assumes "vs \<noteq> []"
  shows "sem (alts (lit (hd vs)) (map lit (tl vs))) p w s' \<longleftrightarrow> w \<in> set vs"
  using assms by (cases vs) auto

lemma cmdlet_verbs_ne: "cmdlet_verbs \<noteq> []" by (simp add: cmdlet_verbs_def)
lemma pipe_verbs_ne: "pipe_verbs \<noteq> []" by (simp add: pipe_verbs_def)

lemma sem_rx_cmdlet:
  "sem rx_cmdlet p w s' \<longleftrightarrow>
     (\<exists>verb cs. w = verb @ CHR ''-'' # cs \<and> verb \<in> set cmdlet_verbs \<and> cs \<noteq> []
        \<and> (\<forall>c\<in>set cs. is_word c) \<and> at_word p \<noteq> at_word (head (w @ s'))
        \<and> at_word (Some (last cs)) \<noteq> at_word (head s'))"
proof -
  have tail: "sem (seqs [Chr ((=) CHR ''-''), many1 is_word, WordB]) q x s' \<longleftrightarrow>
      (\<exists>cs. x = CHR ''-'' # cs \<and> cs \<noteq> [] \<and> (\<forall>c\<in>set cs. is_word c)
         \<and> at_word (Some (last cs)) \<noteq> at_word (head s'))" for q x
  proof
    assume "sem (seqs [Chr ((=) CHR ''-''), many1 is_word, WordB]) q x s'"
    then obtain u1 v1 u2 v2 where x: "x = u1 @ v1" "u1 = [CHR ''-'']" "v1 = u2 @ v2"
      "u2 \<noteq> []" "\<forall>c\<in>set u2. is_word c" "v2 = []"
      "at_word (after (after q u1) u2) \<noteq> at_word (head s')"
      by auto
    then show "\<exists>cs. x = CHR ''-'' # cs \<and> cs \<noteq> [] \<and> (\<forall>c\<in>set cs. is_word c)
         \<and> at_word (Some (last cs)) \<noteq> at_word (head s')"
      by (intro exI[of _ u2]) (simp add: after_def)
  next
    assume "\<exists>cs. x = CHR ''-'' # cs \<and> cs \<noteq> [] \<and> (\<forall>c\<in>set cs. is_word c)
         \<and> at_word (Some (last cs)) \<noteq> at_word (head s')"
    then obtain cs where cs: "x = CHR ''-'' # cs" "cs \<noteq> []" "\<forall>c\<in>set cs. is_word c"
      "at_word (Some (last cs)) \<noteq> at_word (head s')" by blast
    have "sem (seqs [many1 is_word, WordB]) (after q [CHR ''-'']) cs s'"
      using cs by (auto simp: after_def intro!: exI[of _ cs])
    then show "sem (seqs [Chr ((=) CHR ''-''), many1 is_word, WordB]) q x s'"
      unfolding cs(1) sem_seqs_Cons[of "Chr ((=) CHR ''-'')"]
      by (intro exI[of _ "[CHR ''-'']"] exI[of _ cs]) simp
  qed
  have "sem rx_cmdlet p w s' \<longleftrightarrow>
      at_word p \<noteq> at_word (head (w @ s'))
      \<and> (\<exists>verb x. w = verb @ x \<and> verb \<in> set cmdlet_verbs
            \<and> sem (seqs [Chr ((=) CHR ''-''), many1 is_word, WordB]) (after p verb) x s')"
    unfolding rx_cmdlet_def
    by (simp add: sem_verbs[OF cmdlet_verbs_ne] del: sem_alts)
  then show ?thesis unfolding tail by auto
qed

lemma verbs_start_with_letter:
  "verb \<in> set cmdlet_verbs \<Longrightarrow> verb \<noteq> [] \<and> is_word (hd verb)"
proof -
  have "list_all (\<lambda>v. v \<noteq> [] \<and> is_word (hd v)) cmdlet_verbs" by code_simp
  then show "verb \<in> set cmdlet_verbs \<Longrightarrow> verb \<noteq> [] \<and> is_word (hd verb)"
    by (simp add: list_all_iff)
qed

lemma at_word_after_None: "at_word (after None u) \<longleftrightarrow> u \<noteq> [] \<and> is_word (last u)"
  by (simp add: at_word_def after_def)

lemma at_word_head_dropWhile: "\<not> at_word (head (dropWhile is_word x))"
  by (induction x) (auto simp: at_word_def head_def)

lemma test_rx_cmdlet: "test rx_cmdlet s \<longleftrightarrow> has_cmdlet s"
proof
  assume "test rx_cmdlet s"
  then obtain u w v where s: "s = u @ w @ v" and m: "sem rx_cmdlet (after None u) w v"
    unfolding test_sem by blast
  from m obtain verb cs where w: "w = verb @ CHR ''-'' # cs" and verb: "verb \<in> set cmdlet_verbs"
    and cs: "cs \<noteq> []" "\<forall>c\<in>set cs. is_word c"
    and b: "at_word (after None u) \<noteq> at_word (head (w @ v))"
    unfolding sem_rx_cmdlet by blast
  from verbs_start_with_letter[OF verb] have "at_word (head (w @ v))"
    unfolding w by (cases verb) (auto simp: at_word_def head_def)
  with b have u: "u = [] \<or> \<not> is_word (last u)" by (auto simp: at_word_after_None)
  from cs obtain c cs' where c: "cs = c # cs'" "is_word c" by (cases cs) auto
  show "has_cmdlet s"
    unfolding has_cmdlet_def
    by (intro exI[of _ u] exI[of _ verb] exI[of _ c] exI[of _ "cs' @ v"])
       (simp add: s w c verb u)
next
  assume "has_cmdlet s"
  then obtain u verb c v0 where s: "s = u @ verb @ CHR ''-'' # c # v0"
    and verb: "verb \<in> set cmdlet_verbs" and c: "is_word c"
    and u: "u = [] \<or> \<not> is_word (last u)"
    unfolding has_cmdlet_def by blast
  let ?cs = "c # takeWhile is_word v0"
  let ?v = "dropWhile is_word v0"
  let ?w = "verb @ CHR ''-'' # ?cs"
  have s': "s = u @ ?w @ ?v" using s by simp
  have all: "\<forall>x\<in>set ?cs. is_word x" using c by (auto dest: set_takeWhileD)
  then have last: "at_word (Some (last ?cs))"
    unfolding at_word_def using last_in_set[of ?cs] by auto
  from verbs_start_with_letter[OF verb] have first: "at_word (head (?w @ ?v))"
    by (cases verb) (auto simp: at_word_def head_def)
  have "sem rx_cmdlet (after None u) ?w ?v"
    unfolding sem_rx_cmdlet
    apply (rule exI[of _ verb], rule exI[of _ ?cs])
    using verb all last first u at_word_head_dropWhile[of v0]
    by (auto simp: at_word_after_None)
  with s' show "test rx_cmdlet s" unfolding test_sem by blast
qed

lemma sem_rx_pipe_cmdlet:
  "sem rx_pipe_cmdlet p w s' \<longleftrightarrow>
     (\<exists>ws verb cs. w = CHR ''|'' # ws @ verb @ CHR ''-'' # cs \<and> (\<forall>x\<in>set ws. is_space x)
        \<and> verb \<in> set pipe_verbs \<and> cs \<noteq> []
        \<and> (\<forall>c\<in>set cs. is_word c) \<and> at_word (Some (last cs)) \<noteq> at_word (head s'))"
proof -
  have tail: "sem (seqs [Chr ((=) CHR ''-''), many1 is_word, WordB]) q x s' \<longleftrightarrow>
      (\<exists>cs. x = CHR ''-'' # cs \<and> cs \<noteq> [] \<and> (\<forall>c\<in>set cs. is_word c)
         \<and> at_word (Some (last cs)) \<noteq> at_word (head s'))" for q x
  proof
    assume "sem (seqs [Chr ((=) CHR ''-''), many1 is_word, WordB]) q x s'"
    then obtain u1 v1 u2 v2 where x: "x = u1 @ v1" "u1 = [CHR ''-'']" "v1 = u2 @ v2"
      "u2 \<noteq> []" "\<forall>c\<in>set u2. is_word c" "v2 = []"
      "at_word (after (after q u1) u2) \<noteq> at_word (head s')"
      by auto
    then show "\<exists>cs. x = CHR ''-'' # cs \<and> cs \<noteq> [] \<and> (\<forall>c\<in>set cs. is_word c)
         \<and> at_word (Some (last cs)) \<noteq> at_word (head s')"
      by (intro exI[of _ u2]) (simp add: after_def)
  next
    assume "\<exists>cs. x = CHR ''-'' # cs \<and> cs \<noteq> [] \<and> (\<forall>c\<in>set cs. is_word c)
         \<and> at_word (Some (last cs)) \<noteq> at_word (head s')"
    then obtain cs where cs: "x = CHR ''-'' # cs" "cs \<noteq> []" "\<forall>c\<in>set cs. is_word c"
      "at_word (Some (last cs)) \<noteq> at_word (head s')" by blast
    have "sem (seqs [many1 is_word, WordB]) (after q [CHR ''-'']) cs s'"
      using cs by (auto simp: after_def intro!: exI[of _ cs])
    then show "sem (seqs [Chr ((=) CHR ''-''), many1 is_word, WordB]) q x s'"
      unfolding cs(1) sem_seqs_Cons[of "Chr ((=) CHR ''-'')"]
      by (intro exI[of _ "[CHR ''-'']"] exI[of _ cs]) simp
  qed
  have "sem rx_pipe_cmdlet p w s' \<longleftrightarrow>
      (\<exists>ws verb x. w = CHR ''|'' # ws @ verb @ x \<and> (\<forall>c\<in>set ws. is_space c)
            \<and> verb \<in> set pipe_verbs
            \<and> sem (seqs [Chr ((=) CHR ''-''), many1 is_word, WordB])
                  (after (after (Some CHR ''|'') ws) verb) x s')"
  proof
    assume "sem rx_pipe_cmdlet p w s'"
    then obtain u1 v1 u2 v2 u3 v3 where
      "w = u1 @ v1" "u1 = [CHR ''|'']" "v1 = u2 @ v2" "\<forall>c\<in>set u2. is_space c"
      "v2 = u3 @ v3" "u3 \<in> set pipe_verbs"
      "sem (seqs [Chr ((=) CHR ''-''), many1 is_word, WordB])
          (after (after (after p u1) u2) u3) v3 s'"
      unfolding rx_pipe_cmdlet_def sem_seqs_Cons[of "Chr ((=) CHR ''|'')"]
        sem_seqs_Cons[of "Star is_space"] sem_seqs_Cons[of "alts _ _"]
        sem_verbs[OF pipe_verbs_ne] sem.simps
      by blast
    then show "\<exists>ws verb x. w = CHR ''|'' # ws @ verb @ x \<and> (\<forall>c\<in>set ws. is_space c)
            \<and> verb \<in> set pipe_verbs
            \<and> sem (seqs [Chr ((=) CHR ''-''), many1 is_word, WordB])
                  (after (after (Some CHR ''|'') ws) verb) x s'"
      by (intro exI[of _ u2] exI[of _ u3] exI[of _ v3]) simp
  next
    assume "\<exists>ws verb x. w = CHR ''|'' # ws @ verb @ x \<and> (\<forall>c\<in>set ws. is_space c)
            \<and> verb \<in> set pipe_verbs
            \<and> sem (seqs [Chr ((=) CHR ''-''), many1 is_word, WordB])
                  (after (after (Some CHR ''|'') ws) verb) x s'"
    then obtain ws verb x where a: "w = CHR ''|'' # ws @ verb @ x" "\<forall>c\<in>set ws. is_space c"
      "verb \<in> set pipe_verbs"
      "sem (seqs [Chr ((=) CHR ''-''), many1 is_word, WordB])
                  (after (after (Some CHR ''|'') ws) verb) x s'" by blast
    let ?tail = "[Chr ((=) CHR ''-''), many1 is_word, WordB]"
    let ?verbs = "alts (lit (hd pipe_verbs)) (map lit (tl pipe_verbs))"
    have 3: "sem (seqs (?verbs # ?tail)) (after (after p [CHR ''|'']) ws) (verb @ x) s'"
      unfolding sem_seqs_Cons[of ?verbs] sem_verbs[OF pipe_verbs_ne]
      apply (rule exI[of _ verb], rule exI[of _ x])
      using a(3,4) by simp
    have 2: "sem (seqs (Star is_space # ?verbs # ?tail)) (after p [CHR ''|'']) (ws @ verb @ x) s'"
      unfolding sem_seqs_Cons[of "Star is_space"]
      apply (rule exI[of _ ws], rule exI[of _ "verb @ x"])
      using a(2) 3 by simp
    show "sem rx_pipe_cmdlet p w s'"
      unfolding rx_pipe_cmdlet_def sem_seqs_Cons[of "Chr ((=) CHR ''|'')"]
      apply (rule exI[of _ "[CHR ''|'']"], rule exI[of _ "ws @ verb @ x"])
      using a(1) 2 by simp
  qed
  then show ?thesis unfolding tail by blast
qed

lemma test_rx_pipe_cmdlet: "test rx_pipe_cmdlet s \<longleftrightarrow> has_piped_cmdlet s"
proof
  assume "test rx_pipe_cmdlet s"
  then obtain u w v where s: "s = u @ w @ v" and m: "sem rx_pipe_cmdlet (after None u) w v"
    unfolding test_sem by blast
  from m obtain ws verb cs where w: "w = CHR ''|'' # ws @ verb @ CHR ''-'' # cs"
    and ws: "\<forall>x\<in>set ws. is_space x" and verb: "verb \<in> set pipe_verbs"
    and cs: "cs \<noteq> []" "\<forall>c\<in>set cs. is_word c"
    unfolding sem_rx_pipe_cmdlet by blast
  from cs obtain c cs' where c: "cs = c # cs'" "is_word c" by (cases cs) auto
  show "has_piped_cmdlet s"
    unfolding has_piped_cmdlet_def
    by (intro exI[of _ u] exI[of _ ws] exI[of _ verb] exI[of _ c] exI[of _ "cs' @ v"])
       (simp add: s w c verb ws)
next
  assume "has_piped_cmdlet s"
  then obtain u ws verb c v0 where s: "s = u @ CHR ''|'' # ws @ verb @ CHR ''-'' # c # v0"
    and ws: "\<forall>x\<in>set ws. is_space x"
    and verb: "verb \<in> set pipe_verbs" and c: "is_word c"
    unfolding has_piped_cmdlet_def by blast
  let ?cs = "c # takeWhile is_word v0"
  let ?v = "dropWhile is_word v0"
  let ?w = "CHR ''|'' # ws @ verb @ CHR ''-'' # ?cs"
  have s': "s = u @ ?w @ ?v" using s by simp
  have all: "\<forall>x\<in>set ?cs. is_word x" using c by (auto dest: set_takeWhileD)
  then have last: "at_word (Some (last ?cs))"
    unfolding at_word_def using last_in_set[of ?cs] by auto
  have "sem rx_pipe_cmdlet (after None u) ?w ?v"
    unfolding sem_rx_pipe_cmdlet
    apply (rule exI[of _ ws], rule exI[of _ verb], rule exI[of _ ?cs])
    using verb all last ws at_word_head_dropWhile[of v0]
    by auto
  with s' show "test rx_pipe_cmdlet s" unfolding test_sem by blast
qed

theorem shouldUsePowerShell_structured:
  "shouldUsePowerShell (JString s) = Inr (structured_text s)"
proof (cases "s = []")
  case True
  then show ?thesis
    by (simp add: shouldUsePowerShell_def structured_text_def has_newline_def has_variable_def
        has_cmdlet_def has_piped_cmdlet_def)
next
  case False
  then show ?thesis
    by (simp add: shouldUsePowerShell_def js_includes_def structured_text_def has_newline_def
        str_includes_newline test_rx_variable test_rx_cmdlet test_rx_pipe_cmdlet)
qed

subsection \<open>Commands that start with a separator\<close>

lemma after_None_iff: "after None u = None \<longleftrightarrow> u = []"
  by (simp add: after_def)

lemma test_anchored:
  "test (seqs (Bol # rs)) s \<longleftrightarrow> (\<exists>w v. s = w @ v \<and> sem (seqs rs) None w v)"
proof
  assume "test (seqs (Bol # rs)) s"
  then obtain u w v where s: "s = u @ w @ v" and m: "sem (seqs (Bol # rs)) (after None u) w v"
    unfolding test_sem by blast
  from m have "after None u = None" and "sem (seqs rs) (after None u) w v" by auto
  then have "u = []" "sem (seqs rs) None w v" by (simp_all add: after_None_iff)
  with s show "\<exists>w v. s = w @ v \<and> sem (seqs rs) None w v" by auto
next
  assume "\<exists>w v. s = w @ v \<and> sem (seqs rs) None w v"
  then obtain w v where "s = w @ v" "sem (seqs rs) None w v" by blast
  then have "s = [] @ w @ v \<and> sem (seqs (Bol # rs)) (after None []) w v" by simp
  then show "test (seqs (Bol # rs)) s" unfolding test_sem by blast
qed

lemma anchored_first_char:
  assumes "test (seqs (Bol # lit_i (x # xs) # rs)) s"
  shows "\<exists>c cs. s = c # cs \<and> ci x c"
proof -
  from assms obtain w v where s: "s = w @ v" and m: "sem (seqs (lit_i (x # xs) # rs)) None w v"
    unfolding test_anchored by blast
  from m obtain a b where w: "w = a @ b" and a: "list_all2 ci (x # xs) a" by auto
  from a obtain c cs where "a = c # cs" "ci x c" by (auto simp: list_all2_Cons1)
  with s w show ?thesis by auto
qed

lemma whole_url_shape:
  assumes "test rx_whole_url u"
  shows "\<exists>h r. u = h # r \<and> ci CHR ''h'' h \<and> r \<noteq> [] \<and> \<not> is_space (last r)"
proof -
  from assms obtain w v where s: "u = w @ v"
    and m: "sem (seqs [lit_i ''http'', opt (lit_i ''s''), lit ''://'', many1 non_space, Eol]) None w v"
    unfolding rx_whole_url_def test_anchored by blast
  from m obtain a b where w: "w = a @ b" and a: "list_all2 ci ''http'' a"
    and m2: "sem (seqs [opt (lit_i ''s''), lit ''://'', many1 non_space, Eol]) (after None a) b v"
    unfolding sem_seqs_Cons[of "lit_i _"] sem_lit_i by blast
  from m2 obtain c d where b: "b = c @ d"
    and m3: "sem (seqs [lit ''://'', many1 non_space, Eol]) (after (after None a) c) d v"
    unfolding sem_seqs_Cons[of "opt _"] by blast
  from m3 obtain e f where d: "d = e @ f"
    and m4: "sem (seqs [many1 non_space, Eol]) (after (after (after None a) c) e) f v"
    unfolding sem_seqs_Cons[of "lit _"] by blast
  from m4 obtain g where f: "f = g" and g: "g \<noteq> []" "\<forall>x\<in>set g. non_space x" and v: "v = []"
    by auto
  from a obtain h a' where ah: "a = h # a'" "ci CHR ''h'' h" by (auto simp: list_all2_Cons1)
  have u: "u = h # (a' @ c @ e @ g)" using s w b d f v ah by simp
  have "last (a' @ c @ e @ g) = last g" using g(1) by simp
  moreover have "\<not> is_space (last g)" using g last_in_set[OF g(1)] by (auto simp: non_space_def)
  ultimately show ?thesis using u ah(2) g(1) by (intro exI[of _ h] exI[of _ "a' @ c @ e @ g"]) simp
qed

lemma ci_letter_not_space: "is_alpha a \<Longrightarrow> ci a c \<Longrightarrow> \<not> is_space c"
  by (auto simp: ci_def is_alpha_def is_space_def Let_def)

lemma ci_letter_alpha: "is_alpha a \<Longrightarrow> ci a c \<Longrightarrow> is_alpha c"
  by (auto simp: ci_def)

lemma separators_not_alpha: "\<not> is_alpha bslash" "\<not> is_alpha CHR ''/''" "\<not> is_space bslash"
  "\<not> is_space CHR ''/''"
  by (simp_all add: is_alpha_def is_space_def bslash_def)

lemma letters_alpha: "is_alpha CHR ''h''" "is_alpha CHR ''s''" "is_alpha CHR ''c''"
  by (simp_all add: is_alpha_def)

lemma trim_id:
  assumes "s \<noteq> []" "\<not> is_space (hd s)" "\<not> is_space (last s)"
  shows "trim s = s"
proof -
  have 1: "dropWhile is_space s = s" using assms(1,2) by (cases s) auto
  have "rev s \<noteq> []" "\<not> is_space (hd (rev s))" using assms(1,3) by (simp_all add: hd_rev)
  then have 2: "dropWhile is_space (rev s) = rev s" by (cases "rev s") auto
  show ?thesis unfolding trim_def 1 2 by simp
qed

lemma str_includes_self: "str_includes u u"
  by (cases u) auto

lemma str_includes_suffix: "str_includes (a @ u) u"
  by (induction a) (auto simp: str_includes_self)

lemma startsWith_first: "startsWith (c # cs) (x # xs) \<Longrightarrow> c = x"
  by (simp add: startsWith_def)

lemma not_ci_separator:
  assumes "c = bslash \<or> c = CHR ''/''" and "is_alpha a"
  shows "\<not> ci a c"
proof
  assume "ci a c"
  from ci_letter_alpha[OF assms(2) this] assms(1) separators_not_alpha show False by auto
qed

lemma anchored_no_test:
  "\<not> ci x c \<Longrightarrow> \<not> test (seqs (Bol # lit_i (x # xs) # rs)) (c # cs)"
  using anchored_first_char[of x xs rs "c # cs"] by auto

lemma anchored_no_match:
  "\<not> ci x c \<Longrightarrow> match (seqs (Bol # lit_i (x # xs) # rs)) (c # cs) = None"
  using anchored_no_test[of x c xs rs cs] unfolding test_def by blast

lemma changed_tried: "changed (rewriteStartChrome sys x) \<Longrightarrow> didTryChrome (rewriteStartChrome sys x)"
  by (auto simp: rewriteStartChrome_def Let_def split: option.splits if_splits)

lemma rewrite_leading_separator:
  assumes t: "t = c # cs" and c: "c = bslash \<or> c = CHR ''/''" and tr: "trim t = t"
  shows "rewriteStartChrome sys (Some t) = \<lparr>changed = False, cr_command = t, didTryChrome = False\<rparr>"
proof -
  have ns: "\<not> ci CHR ''s'' c" and nc: "\<not> ci CHR ''c'' c"
    using not_ci_separator[OF c] letters_alpha by auto
  have 1: "\<not> test rx_start_title_chrome_exe t"
    unfolding rx_start_title_chrome_exe_def t by (rule anchored_no_test[OF ns])
  have 2: "\<not> startsWith t ''start ''"
    using startsWith_first[of c cs "CHR ''s''"] c unfolding t by (auto simp: bslash_def)
  have 3: "match rx_start_chrome t = None"
    unfolding rx_start_chrome_def t by (rule anchored_no_match[OF ns])
  have 4: "match rx_start_title_chrome t = None"
    unfolding rx_start_title_chrome_def t by (rule anchored_no_match[OF ns])
  have 5: "match rx_bare_chrome t = None"
    unfolding rx_bare_chrome_def t by (rule anchored_no_match[OF nc])
  have ne: "t \<noteq> []" using t by simp
  show ?thesis
    unfolding rewriteStartChrome_def Let_def str_or_empty_def option.case tr
    using 1 2 3 4 5 ne by simp
qed

lemma normalize_slashed_url:
  assumes seps: "seps \<noteq> []" "set seps \<subseteq> {bslash, CHR ''/''}" and url: "test rx_whole_url u"
  shows "trim (seps @ u) = seps @ u"
    and "normalizeCmdStart (Some (seps @ u)) = Reject (reason_slashed_url u)"
proof -
  from whole_url_shape[OF url] obtain h r where u: "u = h # r" and h: "ci CHR ''h'' h"
    and r: "r \<noteq> []" "\<not> is_space (last r)" by blast
  have hs: "\<not> is_space h" using ci_letter_not_space[OF letters_alpha(1) h] .
  have ha: "is_alpha h" using ci_letter_alpha[OF letters_alpha(1) h] .
  have hsep: "\<not> any_of [bslash, CHR ''/''] h"
    using ha separators_not_alpha by (auto simp: any_of_def)
  obtain c cs where sc: "seps = c # cs" using seps(1) by (cases seps) auto
  with seps(2) have c: "c = bslash \<or> c = CHR ''/''" by auto
  let ?t = "seps @ u"
  have "\<not> is_space (hd ?t)" using sc c separators_not_alpha by auto
  moreover have "\<not> is_space (last ?t)" using u r by simp
  ultimately show tr: "trim ?t = ?t" by (intro trim_id) (simp_all add: u)
  have tu: "trim u = u" using u r hs by (intro trim_id) simp_all
  have t: "?t = c # (cs @ u)" using sc by simp
  have ns: "\<not> ci CHR ''s'' c" using not_ci_separator[OF c letters_alpha(2)] .
  have 1: "\<not> test rx_bare_start ?t"
    unfolding rx_bare_start_def t by (rule anchored_no_test[OF ns])
  have 2: "\<not> test rx_start_empty_title ?t"
    unfolding rx_start_empty_title_def t by (rule anchored_no_test[OF ns])
  have 3: "\<not> test rx_start_title_only ?t"
    unfolding rx_start_title_only_def t by (rule anchored_no_test[OF ns])
  have "\<forall>x\<in>set seps. any_of [bslash, CHR ''/''] x" using seps(2) by (auto simp: any_of_def)
  then have "dropWhile (any_of [bslash, CHR ''/'']) ?t = dropWhile (any_of [bslash, CHR ''/'']) u"
    by (simp add: dropWhile_append2)
  also have "\<dots> = u" using u hsep by simp
  finally have st: "stripLeadingSlashes ?t = u" by (simp add: stripLeadingSlashes_def)
  have neq: "u \<noteq> ?t" using seps(1) by simp
  have look: "looksLikeUrl u" using url tu by (simp add: looksLikeUrl_def)
  show "normalizeCmdStart (Some (seps @ u)) = Reject (reason_slashed_url u)"
    unfolding normalizeCmdStart_def Let_def str_or_empty_def option.case tr st
    using 1 2 3 neq look by simp
qed

lemma empty_start_patterns_nonempty:
  "\<not> test rx_bare_start []" "\<not> test rx_start_empty_title []" "\<not> test rx_start_title_only []"
  by code_simp+

subsection \<open>Inputs that are not strings\<close>





subsection \<open>Claims about the dispatcher\<close>

text \<open>
  C5, as amended. On the basic-interpreter path (effective shell \<^verbatim>\<open>cmd\<close>, no script
  text), a command that matches the empty-launch-target pattern and is not taken for a
  Chrome launch (\<^verbatim>\<open>rewriteStartChrome\<close> does not flag it, and it does not hold
  \<^verbatim>\<open>chrome.exe\<close> together with a URL, \<^verbatim>\<open>--new-window\<close> or \<^verbatim>\<open>--app=\<close>) is
  refused: success false, an error text that contains \<^verbatim>\<open>Refusing to run\<close>, and no
  effect on the machine.
\<close>

theorem empty_start_rejected:
  assumes cmd: "command inp = JString c"
    and pat: "test rx_bare_start (trim c) \<or> test rx_start_empty_title (trim c)
              \<or> test rx_start_title_only (trim c)"
    and noscript: "\<forall>s. script inp = JString s \<longrightarrow> trim s = []"
    and shell: "detectShell (case shell inp of None \<Rightarrow> Some ''auto'' | Some s \<Rightarrow> Some s)
                  (command inp) (script inp) (use_powershell inp) = Inr ''cmd''"
    and nochrome: "\<not> didTryChrome (rewriteStartChrome sys (Some c))"
    and nolaunch: "\<not> (test rx_chrome_exe_word c
                      \<and> (extractFirstUrl (Some c) \<noteq> None \<or> test rx_new_window c
                          \<or> test rx_app_flag c))"
  shows "executeCommand sys inp =
           (\<lparr>success = False, deferred = False, deduped = False,
             error = Some reason_no_target, res_note = None,
             fingerprint = None, res_output = Some []\<rparr>, [])
         \<and> str_includes reason_no_target ''Refusing to run''"
proof -
  have ne: "trim c \<noteq> []" using pat empty_start_patterns_nonempty by auto
  have hs: "(case script inp of JString s \<Rightarrow> trim s \<noteq> [] | _ \<Rightarrow> False) = False"
    using noscript by (auto split: json.splits)
  have hc: "(case command inp of JString c \<Rightarrow> trim c \<noteq> [] | _ \<Rightarrow> False) = True"
    using cmd ne by simp
  have sv: "string_value (command inp) = Some c" using cmd by (simp add: string_value_def)
  have nch: "\<not> changed (rewriteStartChrome sys (Some c))"
    using nochrome changed_tried by blast
  have norm: "normalizeCmdStart (Some c) = Reject reason_no_target"
    unfolding normalizeCmdStart_def Let_def str_or_empty_def option.case
    using pat by simp
  have "executeCommand sys inp = (envelope False (Some reason_no_target) (Some []), [])"
    unfolding executeCommand_def Let_def shell sum.case hs hc sv
    using nch nochrome nolaunch norm by (auto simp: str_or_empty_def)
  moreover have "str_includes reason_no_target ''Refusing to run''" by code_simp
  ultimately show ?thesis by (simp add: envelope_def)
qed

theorem empty_start_rejected_witness:
  "executeCommand demo_sys (no_input\<lparr>command := JString ''start''\<rparr>) =
     (\<lparr>success = False, deferred = False, deduped = False,
       error = Some reason_no_target, res_note = None,
       fingerprint = None, res_output = Some []\<rparr>, [])
   \<and> str_includes reason_no_target ''Refusing to run''"
proof -
  let ?inp = "no_input\<lparr>command := JString ''start''\<rparr>"
  have cmd: "command ?inp = JString ''start''" by (simp add: no_input_def)
  have pat: "test rx_bare_start (trim ''start'') \<or> test rx_start_empty_title (trim ''start'')
              \<or> test rx_start_title_only (trim ''start'')" by code_simp
  have noscript: "\<forall>s. script ?inp = JString s \<longrightarrow> trim s = []" by (simp add: no_input_def)
  have shell: "detectShell (case shell ?inp of None \<Rightarrow> Some ''auto'' | Some s \<Rightarrow> Some s)
                  (command ?inp) (script ?inp) (use_powershell ?inp) = Inr ''cmd''" by code_simp
  have nochrome: "\<not> didTryChrome (rewriteStartChrome demo_sys (Some ''start''))" by code_simp
  have nolaunch: "\<not> (test rx_chrome_exe_word ''start''
                      \<and> (extractFirstUrl (Some ''start'') \<noteq> None \<or> test rx_new_window ''start''
                          \<or> test rx_app_flag ''start''))" by code_simp
  show ?thesis by (rule empty_start_rejected[OF cmd pat noscript shell nochrome nolaunch])
qed

text \<open>
  C5 as stated fails: \<^verbatim>\<open>start "C:\chrome.exe"\<close> matches the pattern (a quoted title
  and nothing else), yet with the shell pinned to \<^verbatim>\<open>cmd\<close> the dispatcher takes it for a
  Chrome launch, starts Chrome as a detached process and reports success.
\<close>

theorem quoted_chrome_title_spawns:
  "test rx_start_title_only (trim start_chrome_title)
   \<and> success (fst (executeCommand demo_sys
                      (no_input\<lparr>command := JString start_chrome_title, shell := Some ''cmd''\<rparr>)))
   \<and> snd (executeCommand demo_sys
            (no_input\<lparr>command := JString start_chrome_title, shell := Some ''cmd''\<rparr>)) =
       [Spawned (resolveChromeExe demo_sys) [''--new-window''], Exec tasklist_command 8000]"
  by code_simp

text \<open>
  C6, as amended. On the basic-interpreter path (effective shell \<^verbatim>\<open>cmd\<close>, no script
  text), a command that is an http(s) URL behind one or more leading separators
  (backslash or slash) and that does not hold the word \<^verbatim>\<open>chrome.exe\<close> is refused:
  success false, no effect on the machine, and an error text that contains the URL
  without the leading separators.
\<close>

theorem slashed_url_rejected:
  assumes cmd: "command inp = JString (seps @ u)"
    and seps: "seps \<noteq> []" "set seps \<subseteq> {bslash, CHR ''/''}"
    and url: "test rx_whole_url u"
    and noscript: "\<forall>s. script inp = JString s \<longrightarrow> trim s = []"
    and shell: "detectShell (case shell inp of None \<Rightarrow> Some ''auto'' | Some s \<Rightarrow> Some s)
                  (command inp) (script inp) (use_powershell inp) = Inr ''cmd''"
    and nochrome: "\<not> test rx_chrome_exe_word (seps @ u)"
  shows "executeCommand sys inp =
           (\<lparr>success = False, deferred = False, deduped = False,
             error = Some (reason_slashed_url u), res_note = None,
             fingerprint = None, res_output = Some []\<rparr>, [])
         \<and> str_includes (reason_slashed_url u) u"
proof -
  note n = normalize_slashed_url[OF seps url]
  obtain c cs where sc: "seps = c # cs" using seps(1) by (cases seps) auto
  with seps(2) have c: "c = bslash \<or> c = CHR ''/''" by auto
  have t: "seps @ u = c # (cs @ u)" using sc by simp
  have rw: "rewriteStartChrome sys (Some (seps @ u))
             = \<lparr>changed = False, cr_command = seps @ u, didTryChrome = False\<rparr>"
    by (rule rewrite_leading_separator[OF t c n(1)])
  have hs: "(case script inp of JString s \<Rightarrow> trim s \<noteq> [] | _ \<Rightarrow> False) = False"
    using noscript by (auto split: json.splits)
  have hc: "(case command inp of JString c \<Rightarrow> trim c \<noteq> [] | _ \<Rightarrow> False) = True"
    using cmd n(1) seps(1) by simp
  have sv: "string_value (command inp) = Some (seps @ u)" using cmd by (simp add: string_value_def)
  have "executeCommand sys inp = (envelope False (Some (reason_slashed_url u)) (Some []), [])"
    unfolding executeCommand_def Let_def shell sum.case hs hc sv
    using rw nochrome n(2) by (simp add: str_or_empty_def)
  moreover have "str_includes (reason_slashed_url u) u"
    unfolding reason_slashed_url_def
    using str_includes_suffix[of "''Looks like a URL with a leading '' @ [bslash, bslash]
     @ '' or /. '' @ ''Use the URL without the leading slash, or ask the bot to browse it. ''
     @ ''Example: ''" u] by simp
  ultimately show ?thesis by (simp add: envelope_def)
qed

theorem slashed_url_rejected_witness:
  "executeCommand demo_sys (no_input\<lparr>command := JString ([bslash, bslash] @ ''https://example.com'')\<rparr>) =
     (\<lparr>success = False, deferred = False, deduped = False,
       error = Some (reason_slashed_url ''https://example.com''), res_note = None,
       fingerprint = None, res_output = Some []\<rparr>, [])
   \<and> str_includes (reason_slashed_url ''https://example.com'') ''https://example.com''"
proof -
  let ?inp = "no_input\<lparr>command := JString ([bslash, bslash] @ ''https://example.com'')\<rparr>"
  have cmd: "command ?inp = JString ([bslash, bslash] @ ''https://example.com'')"
    by (simp add: no_input_def)
  have seps: "[bslash, bslash] \<noteq> []" "set [bslash, bslash] \<subseteq> {bslash, CHR ''/''}" by simp_all
  have url: "test rx_whole_url ''https://example.com''" by code_simp
  have noscript: "\<forall>s. script ?inp = JString s \<longrightarrow> trim s = []" by (simp add: no_input_def)
  have shell: "detectShell (case shell ?inp of None \<Rightarrow> Some ''auto'' | Some s \<Rightarrow> Some s)
                  (command ?inp) (script ?inp) (use_powershell ?inp) = Inr ''cmd''" by code_simp
  have nochrome: "\<not> test rx_chrome_exe_word ([bslash, bslash] @ ''https://example.com'')"
    by code_simp
  show ?thesis by (rule slashed_url_rejected[OF cmd seps url noscript shell nochrome])
qed

text \<open>
  C6 as stated fails: a URL with a leading backslash whose path ends in
  \<^verbatim>\<open>chrome.exe\<close> is, with the shell pinned to \<^verbatim>\<open>cmd\<close>, taken for a Chrome launch:
  Chrome is started on the URL and the call reports success.
\<close>

theorem slashed_chrome_url_spawns:
  "test rx_whole_url (tl slashed_chrome_url) \<and> hd slashed_chrome_url = bslash
   \<and> success (fst (executeCommand demo_sys
                      (no_input\<lparr>command := JString slashed_chrome_url, shell := Some ''cmd''\<rparr>)))
   \<and> snd (executeCommand demo_sys
            (no_input\<lparr>command := JString slashed_chrome_url, shell := Some ''cmd''\<rparr>)) =
       [Spawned (resolveChromeExe demo_sys)
          [''--new-window'', ''--autoplay-policy=no-user-gesture-required'',
           ''https://example.com/chrome.exe''],
        Exec tasklist_command 8000]"
  by code_simp

text \<open>
  C9. An explicit shell (any non-empty \<^verbatim>\<open>shell\<close> other than \<^verbatim>\<open>auto\<close>) is the
  shell selected, whatever the text; failing that, a boolean \<^verbatim>\<open>use_powershell\<close>
  decides; failing both, for a script and a command that are each absent or a string,
  PowerShell is selected if and only if the script or the command is structured text in
  the words of the specification, and \<^verbatim>\<open>cmd\<close> otherwise. In particular a text with
  a newline and a cmdlet token, with no hint, selects PowerShell.
\<close>

theorem detectShell_selection:
  "(truthy shell' \<and> shell' \<noteq> Some ''auto'' \<longrightarrow>
      detectShell shell' command' script' use_powershell' = Inr (the shell'))
   \<and> (\<not> (truthy shell' \<and> shell' \<noteq> Some ''auto'') \<and> use_powershell' = Some b \<longrightarrow>
      detectShell shell' command' script' use_powershell' =
        Inr (if b then ''powershell'' else ''cmd''))
   \<and> (\<not> (truthy shell' \<and> shell' \<noteq> Some ''auto'') \<and> use_powershell' = None \<longrightarrow>
      detectShell shell' (text_field commandText) (text_field scriptText) use_powershell' =
        Inr (if structured_text (str_or_empty scriptText)
                \<or> structured_text (str_or_empty commandText)
             then ''powershell'' else ''cmd''))
   \<and> (has_newline text' \<and> has_cmdlet text' \<longrightarrow>
      detectShell None (JString text') JUndefined None = Inr ''powershell'')"
proof -
  have st: "(if js_truthy (text_field x) then shouldUsePowerShell (text_field x) else Inr False)
              = Inr (structured_text (str_or_empty x))" for x
  proof (cases x)
    case None
    then show ?thesis
      by (simp add: text_field_def str_or_empty_def structured_text_def has_newline_def
          has_variable_def has_cmdlet_def has_piped_cmdlet_def)
  next
    case (Some s)
    have "shouldUsePowerShell (JString []) = Inr False" by (simp add: shouldUsePowerShell_def)
    moreover have "\<not> structured_text []"
      by (simp add: structured_text_def has_newline_def has_variable_def has_cmdlet_def
          has_piped_cmdlet_def)
    ultimately show ?thesis
      using Some shouldUsePowerShell_structured[of s]
      by (simp add: text_field_def str_or_empty_def)
  qed
  have heur: "detectShell shell' (text_field commandText) (text_field scriptText) None =
        Inr (if structured_text (str_or_empty scriptText)
                \<or> structured_text (str_or_empty commandText)
             then ''powershell'' else ''cmd'')"
    if "\<not> (truthy shell' \<and> shell' \<noteq> Some ''auto'')" for shell' commandText scriptText
    unfolding detectShell_def if_not_P[OF that] option.case st sum.case by simp
  have 1: "detectShell shell' command' script' use_powershell' = Inr (the shell')"
    if "truthy shell' \<and> shell' \<noteq> Some ''auto''"
    unfolding detectShell_def if_P[OF that] by (rule refl)
  have 2: "detectShell shell' command' script' use_powershell' =
             Inr (if b then ''powershell'' else ''cmd'')"
    if "\<not> (truthy shell' \<and> shell' \<noteq> Some ''auto'')" "use_powershell' = Some b"
    unfolding detectShell_def if_not_P[OF that(1)] that(2) option.case by (rule refl)
  have 4: "detectShell None (JString text') JUndefined None = Inr ''powershell''"
    if "has_newline text' \<and> has_cmdlet text'"
  proof -
    have "\<not> (truthy None \<and> None \<noteq> Some ''auto'')" by (simp add: truthy_def)
    from heur[OF this, of "Some text'" None] that show ?thesis
      by (simp add: structured_text_def str_or_empty_def text_field_def)
  qed
  show ?thesis using 1 2 heur 4 by blast
qed

theorem detectShell_selection_witness:
  "detectShell (Some ''bash'') (JString (''Get-Process'' @ [newline] @ ''dir'')) JUndefined None
     = Inr (the (Some ''bash''))
   \<and> detectShell (Some ''auto'') (JString (''Get-Process'' @ [newline] @ ''dir'')) JUndefined
       (Some False) = Inr (if False then ''powershell'' else ''cmd'')
   \<and> detectShell (Some ''auto'') (text_field (Some ''dir'')) (text_field (Some ''echo $x'')) None =
       Inr (if structured_text (str_or_empty (Some ''echo $x''))
               \<or> structured_text (str_or_empty (Some ''dir''))
            then ''powershell'' else ''cmd'')
   \<and> detectShell None (JString (''Get-Process'' @ [newline] @ ''dir'')) JUndefined None
       = Inr ''powershell''"
proof -
  let ?t = "''Get-Process'' @ [newline] @ ''dir''"
  have pin: "truthy (Some ''bash'') \<and> Some ''bash'' \<noteq> Some ''auto''" by code_simp
  have nopin: "\<not> (truthy (Some ''auto'') \<and> Some ''auto'' \<noteq> Some ''auto'')" by simp
  have nl: "has_newline ?t" by (simp add: has_newline_def)
  have "test rx_cmdlet ?t" by code_simp
  then have cl: "has_cmdlet ?t" by (simp only: test_rx_cmdlet)
  note d = detectShell_selection[where text'="?t"]
  have 1: "detectShell (Some ''bash'') (JString ?t) JUndefined None = Inr (the (Some ''bash''))"
    using d[where shell'="Some ''bash''" and command'="JString ?t" and script'=JUndefined
        and use_powershell'=None, THEN conjunct1] pin by blast
  have 2: "detectShell (Some ''auto'') (JString ?t) JUndefined (Some False) =
       Inr (if False then ''powershell'' else ''cmd'')"
    using d[where shell'="Some ''auto''" and command'="JString ?t" and script'=JUndefined
        and use_powershell'="Some False" and b=False, THEN conjunct2, THEN conjunct1] nopin
    by blast
  have 3: "detectShell (Some ''auto'') (text_field (Some ''dir'')) (text_field (Some ''echo $x'')) None =
       Inr (if structured_text (str_or_empty (Some ''echo $x''))
               \<or> structured_text (str_or_empty (Some ''dir''))
            then ''powershell'' else ''cmd'')"
    using d[where shell'="Some ''auto''" and commandText="Some ''dir''"
        and scriptText="Some ''echo $x''" and use_powershell'=None,
        THEN conjunct2, THEN conjunct2, THEN conjunct1] nopin by blast
  have 4: "detectShell None (JString ?t) JUndefined None = Inr ''powershell''"
    using d[where shell'=None and use_powershell'=None,
        THEN conjunct2, THEN conjunct2, THEN conjunct2] nl cl by blast
  from 1 2 3 4 show ?thesis by (simp only: HOL.simp_thms)
qed




section \<open>Properties of the orchestrator\<close>

subsection \<open>One request\<close>

lemma call_tool_Inr:
  "call_tool sv name inp progress t = Inr (r, t') \<Longrightarrow>
     toolResultsBlocks t' = toolResultsBlocks t \<and> executedThisResponse t' = executedThisResponse t + 1
     \<and> stopAfterBrowseSuccess t' = stopAfterBrowseSuccess t
     \<and> executedBrowserActions t' = executedBrowserActions t
     \<and> log t' = log t @ [Sent progress, Dispatched name inp (Inr r)]"
  by (auto simp: call_tool_def split: prod.splits sum.splits)

lemma call_tool_Inl:
  "call_tool sv name inp progress t = Inl (m, w, lg) \<Longrightarrow>
     lg = log t @ [Sent progress, Dispatched name inp (Inl m)]"
  by (auto simp: call_tool_def split: prod.splits sum.splits)

lemma remember_fields [simp]:
  "toolResultsBlocks (remember fp r t) = toolResultsBlocks t"
  "executedThisResponse (remember fp r t) = executedThisResponse t"
  "stopAfterBrowseSuccess (remember fp r t) = stopAfterBrowseSuccess t"
  "log (remember fp r t) = log t"
  "world (remember fp r t) = world t"
  by (simp_all add: remember_def)

lemma push_result_fields [simp]:
  "toolResultsBlocks (push_result tid r t) = toolResultsBlocks t @ [\<lparr>tool_use_id = tid, payload = r\<rparr>]"
  "executedThisResponse (push_result tid r t) = executedThisResponse t"
  "stopAfterBrowseSuccess (push_result tid r t) = stopAfterBrowseSuccess t"
  "executedBrowserActions (push_result tid r t) = executedBrowserActions t"
  "log (push_result tid r t) = log t"
  "world (push_result tid r t) = world t"
  by (simp_all add: push_result_def)

lemma trimHistory_idem: "trimHistory (trimHistory ms) = trimHistory ms"
  by (simp add: trimHistory_def)

lemma first_call_throws:
  assumes "messages_create sv w False msgs = (Inl m, w')" and "\<not> deepThinking opts"
  shows "try_body sv cfg opts msgs w lg = Inl (m, w', lg @ [Submitted False msgs])"
  using assms by (simp add: try_body_def first_submit_def)

lemma succeeded_append: "succeeded (l1 @ l2) = succeeded l1 \<union> succeeded l2"
  by (induction l1 rule: succeeded.induct) (auto split: option.splits)

lemma no_redispatch_append:
  "no_redispatch D (l1 @ l2) = (no_redispatch D l1 \<and> no_redispatch (D \<union> succeeded l1) l2)"
proof (induction D l1 rule: no_redispatch.induct)
  case (2 D name inp res es)
  then show ?case
    by (cases res) (auto split: option.splits simp: Un_assoc insert_commute)
qed simp_all

lemma no_redispatch_twice:
  assumes "no_redispatch D (l1 @ Dispatched n1 i1 (Inr r1) # l2 @ Dispatched n2 i2 o2 # l3)"
    and "success r1" and "fingerprintBrowserAction n1 i1 = Some fp"
  shows "fingerprintBrowserAction n2 i2 \<noteq> Some fp"
proof
  assume same: "fingerprintBrowserAction n2 i2 = Some fp"
  let ?D1 = "D \<union> succeeded l1"
  from assms(1) have "no_redispatch ?D1 (Dispatched n1 i1 (Inr r1) # l2 @ Dispatched n2 i2 o2 # l3)"
    by (simp add: no_redispatch_append)
  with assms(2,3) have "no_redispatch (?D1 \<union> {fp}) (l2 @ Dispatched n2 i2 o2 # l3)"
    by simp
  then have "no_redispatch (?D1 \<union> {fp} \<union> succeeded l2) (Dispatched n2 i2 o2 # l3)"
    by (simp add: no_redispatch_append)
  with same show False by simp
qed

lemma recorded_dispatch:
  assumes "recorded E lg"
    and "\<forall>fp. fingerprintBrowserAction name inp = Some fp \<longrightarrow> fp \<notin> E"
  shows "no_redispatch {} (lg @ [Sent p, Dispatched name inp res])"
  using assms
  by (auto simp: recorded_def no_redispatch_append succeeded_append split: option.splits)

lemma call_tool_thrown:
  assumes "recorded (executedBrowserActions t) (log t)"
    and "\<forall>fp. fingerprintBrowserAction name inp = Some fp \<longrightarrow> fp \<notin> executedBrowserActions t"
    and "call_tool sv name inp p t = Inl (m, w, lg)"
  shows "no_redispatch {} lg"
  using call_tool_Inl[OF assms(3)] recorded_dispatch[OF assms(1,2)] by simp

lemma call_tool_recorded:
  assumes "recorded (executedBrowserActions t) (log t)"
    and "\<forall>fp. fingerprintBrowserAction name inp = Some fp \<longrightarrow> fp \<notin> executedBrowserActions t"
    and "call_tool sv name inp p t = Inr (r, t1)"
  shows "recorded (executedBrowserActions (remember (fingerprintBrowserAction name inp) r t1)) (log t1)"
proof -
  from call_tool_Inr[OF assms(3)] have l: "log t1 = log t @ [Sent p, Dispatched name inp (Inr r)]"
    and e: "executedBrowserActions t1 = executedBrowserActions t" by simp_all
  have "no_redispatch {} (log t1)"
    using recorded_dispatch[OF assms(1,2)] l by simp
  moreover have "succeeded (log t1)
        \<subseteq> executedBrowserActions (remember (fingerprintBrowserAction name inp) r t1)"
    using assms(1) l e
    by (auto simp: recorded_def succeeded_append remember_def split: option.splits if_splits)
  ultimately show ?thesis by (simp add: recorded_def)
qed

lemma tool_step_dispatch:
  assumes ex: "\<not> (sc \<and> 1 \<le> executedThisResponse t)"
    and nd: "\<forall>fp. fingerprintBrowserAction name inp = Some fp \<longrightarrow> fp \<notin> executedBrowserActions t"
  shows "(name \<notin> set known_tools
            \<and> tool_step sv cfg sc tid name inp t = Inr (push_result tid (unknown_tool_result name) t))
         \<or> (name \<in> set known_tools \<and> (\<exists>p. (\<forall>e. call_tool sv name inp p t = Inl e \<longrightarrow> tool_step sv cfg sc tid name inp t = Inl e)
                \<and> (\<forall>r t1. call_tool sv name inp p t = Inr (r, t1) \<longrightarrow>
                    tool_step sv cfg sc tid name inp t =
                      Inr (push_result tid r
                        ((remember (fingerprintBrowserAction name inp) r t1)
                           \<lparr>stopAfterBrowseSuccess :=
                              (stopAfterBrowseSuccess t1
                               \<or> (name = ''browse_website'' \<and> STOP_AFTER_SUCCESSFUL_BROWSE cfg
                                  \<and> success r))\<rparr>)))))"
proof -
  let ?fp = "fingerprintBrowserAction name inp"
  have nd': "\<not> (?fp \<noteq> None \<and> the ?fp \<in> executedBrowserActions t)"
    using nd by auto
  have pre: "(\<not> (sc \<and> executedThisResponse t \<ge> 1)) = True"
    "(?fp \<noteq> None \<and> the ?fp \<in> executedBrowserActions t) = False"
    using ex nd' by auto
  have step: "tool_step sv cfg sc tid name inp t =
      (if name = ''execute_command'' then
        (case call_tool sv ''execute_command'' inp
                (''Executing: '' @ (if execute_preview inp \<noteq> [] then execute_preview inp
                                    else ''(empty)'')) t of
           Inl e \<Rightarrow> Inl e
         | Inr (toolResult, t') \<Rightarrow> Inr (push_result tid toolResult (remember ?fp toolResult t')))
      else if name = ''take_screenshot'' then
        (case call_tool sv ''take_screenshot'' inp ''Taking screenshot...'' t of
           Inl e \<Rightarrow> Inl e
         | Inr (toolResult, t') \<Rightarrow> Inr (push_result tid toolResult t'))
      else if name = ''capture_webcam_photo'' then
        (case call_tool sv ''capture_webcam_photo'' inp ''Capturing webcam photo...'' t of
           Inl e \<Rightarrow> Inl e
         | Inr (toolResult, t') \<Rightarrow> Inr (push_result tid toolResult t'))
      else if name = ''browse_website'' then
        (case call_tool sv ''browse_website'' inp (''Browsing: '' @ str_or_empty (url inp)) t of
           Inl e \<Rightarrow> Inl e
         | Inr (toolResult, t') \<Rightarrow>
             Inr (push_result tid toolResult
                    ((remember ?fp toolResult t')
                       \<lparr>stopAfterBrowseSuccess :=
                          (stopAfterBrowseSuccess t'
                           \<or> (STOP_AFTER_SUCCESSFUL_BROWSE cfg \<and> success toolResult))\<rparr>)))
      else if name = ''run_healer'' then
        (case call_tool sv ''run_healer'' inp
                ''Running healer (installing dependencies, updating paths - may take 2-5 min)...'' t of
           Inl e \<Rightarrow> Inl e
         | Inr (toolResult, t') \<Rightarrow> Inr (push_result tid toolResult t'))
      else Inr (push_result tid (unknown_tool_result name) t))"
    unfolding tool_step_def Let_def pre by simp
  have other: "?fp = None" if "name \<noteq> ''execute_command''" "name \<noteq> ''browse_website''"
    using that by (simp add: fingerprintBrowserAction_def)
  have same: "t1\<lparr>stopAfterBrowseSuccess := stopAfterBrowseSuccess t1\<rparr> = t1" for t1 :: "'a turn"
    by simp
  have mem: "name \<in> set known_tools \<longleftrightarrow> name = ''execute_command'' \<or> name = ''take_screenshot''
      \<or> name = ''capture_webcam_photo'' \<or> name = ''browse_website'' \<or> name = ''run_healer''"
    unfolding known_tools_def by (simp only: list.set insert_iff empty_iff simp_thms)
  show ?thesis
  proof (cases "name \<in> set known_tools")
    case False
    have nk: "\<not> (name = ''execute_command'' \<or> name = ''take_screenshot''
      \<or> name = ''capture_webcam_photo'' \<or> name = ''browse_website'' \<or> name = ''run_healer'')"
      by (rule False[unfolded mem])
    have ne: "(name = ''execute_command'') = False" "(name = ''take_screenshot'') = False"
      "(name = ''capture_webcam_photo'') = False" "(name = ''browse_website'') = False"
      "(name = ''run_healer'') = False"
      using nk by (simp_all only: de_Morgan_disj simp_thms)
    show ?thesis
      apply (rule disjI1)
      unfolding step ne if_False
      using False by (simp only: simp_thms)
  next
    case True
    from mem[THEN iffD1, OF True] show ?thesis
    proof (elim disjE)
    assume exec: "name = ''execute_command''"
    show ?thesis
    proof (intro disjI2 conjI)
      show "name \<in> set known_tools" by (rule True)
      show "\<exists>p. (\<forall>e. call_tool sv name inp p t = Inl e \<longrightarrow> tool_step sv cfg sc tid name inp t = Inl e)
                \<and> (\<forall>r t1. call_tool sv name inp p t = Inr (r, t1) \<longrightarrow>
                    tool_step sv cfg sc tid name inp t =
                      Inr (push_result tid r
                        ((remember (fingerprintBrowserAction name inp) r t1)
                           \<lparr>stopAfterBrowseSuccess :=
                              (stopAfterBrowseSuccess t1
                               \<or> (name = ''browse_website'' \<and> STOP_AFTER_SUCCESSFUL_BROWSE cfg
                                  \<and> success r))\<rparr>)))"
        unfolding exec
        apply (rule exI[of _ "''Executing: '' @ (if execute_preview inp \<noteq> [] then execute_preview inp else ''(empty)'')"])
        apply (subst step[unfolded exec])+
        by (cases "call_tool sv ''execute_command'' inp (''Executing: '' @ (if execute_preview inp \<noteq> [] then execute_preview inp else ''(empty)'')) t") (auto simp: same)
    qed
    next
    assume shot: "name = ''take_screenshot''"
    have fp: "fingerprintBrowserAction ''take_screenshot'' inp = None" by (simp add: fingerprintBrowserAction_def)
    show ?thesis
    proof (intro disjI2 conjI)
      show "name \<in> set known_tools" by (rule True)
      show "\<exists>p. (\<forall>e. call_tool sv name inp p t = Inl e \<longrightarrow> tool_step sv cfg sc tid name inp t = Inl e)
                \<and> (\<forall>r t1. call_tool sv name inp p t = Inr (r, t1) \<longrightarrow>
                    tool_step sv cfg sc tid name inp t =
                      Inr (push_result tid r
                        ((remember (fingerprintBrowserAction name inp) r t1)
                           \<lparr>stopAfterBrowseSuccess :=
                              (stopAfterBrowseSuccess t1
                               \<or> (name = ''browse_website'' \<and> STOP_AFTER_SUCCESSFUL_BROWSE cfg
                                  \<and> success r))\<rparr>)))"
        unfolding shot
        apply (rule exI[of _ "''Taking screenshot...''"])
        apply (subst step[unfolded shot])+
        by (cases "call_tool sv ''take_screenshot'' inp (''Taking screenshot...'') t") (auto simp: same fp remember_def)
    qed
    next
    assume cam: "name = ''capture_webcam_photo''"
    have fp: "fingerprintBrowserAction ''capture_webcam_photo'' inp = None" by (simp add: fingerprintBrowserAction_def)
    show ?thesis
    proof (intro disjI2 conjI)
      show "name \<in> set known_tools" by (rule True)
      show "\<exists>p. (\<forall>e. call_tool sv name inp p t = Inl e \<longrightarrow> tool_step sv cfg sc tid name inp t = Inl e)
                \<and> (\<forall>r t1. call_tool sv name inp p t = Inr (r, t1) \<longrightarrow>
                    tool_step sv cfg sc tid name inp t =
                      Inr (push_result tid r
                        ((remember (fingerprintBrowserAction name inp) r t1)
                           \<lparr>stopAfterBrowseSuccess :=
                              (stopAfterBrowseSuccess t1
                               \<or> (name = ''browse_website'' \<and> STOP_AFTER_SUCCESSFUL_BROWSE cfg
                                  \<and> success r))\<rparr>)))"
        unfolding cam
        apply (rule exI[of _ "''Capturing webcam photo...''"])
        apply (subst step[unfolded cam])+
        by (cases "call_tool sv ''capture_webcam_photo'' inp (''Capturing webcam photo...'') t") (auto simp: same fp remember_def)
    qed
    next
    assume browse: "name = ''browse_website''"
    show ?thesis
    proof (intro disjI2 conjI)
      show "name \<in> set known_tools" by (rule True)
      show "\<exists>p. (\<forall>e. call_tool sv name inp p t = Inl e \<longrightarrow> tool_step sv cfg sc tid name inp t = Inl e)
                \<and> (\<forall>r t1. call_tool sv name inp p t = Inr (r, t1) \<longrightarrow>
                    tool_step sv cfg sc tid name inp t =
                      Inr (push_result tid r
                        ((remember (fingerprintBrowserAction name inp) r t1)
                           \<lparr>stopAfterBrowseSuccess :=
                              (stopAfterBrowseSuccess t1
                               \<or> (name = ''browse_website'' \<and> STOP_AFTER_SUCCESSFUL_BROWSE cfg
                                  \<and> success r))\<rparr>)))"
        unfolding browse
        apply (rule exI[of _ "''Browsing: '' @ str_or_empty (url inp)"])
        apply (subst step[unfolded browse])+
        by (cases "call_tool sv ''browse_website'' inp (''Browsing: '' @ str_or_empty (url inp)) t") (auto simp: same)
    qed
    next
    assume heal: "name = ''run_healer''"
    have fp: "fingerprintBrowserAction ''run_healer'' inp = None" by (simp add: fingerprintBrowserAction_def)
    show ?thesis
    proof (intro disjI2 conjI)
      show "name \<in> set known_tools" by (rule True)
      show "\<exists>p. (\<forall>e. call_tool sv name inp p t = Inl e \<longrightarrow> tool_step sv cfg sc tid name inp t = Inl e)
                \<and> (\<forall>r t1. call_tool sv name inp p t = Inr (r, t1) \<longrightarrow>
                    tool_step sv cfg sc tid name inp t =
                      Inr (push_result tid r
                        ((remember (fingerprintBrowserAction name inp) r t1)
                           \<lparr>stopAfterBrowseSuccess :=
                              (stopAfterBrowseSuccess t1
                               \<or> (name = ''browse_website'' \<and> STOP_AFTER_SUCCESSFUL_BROWSE cfg
                                  \<and> success r))\<rparr>)))"
        unfolding heal
        apply (rule exI[of _ "''Running healer (installing dependencies, updating paths - may take 2-5 min)...''"])
        apply (subst step[unfolded heal])+
        by (cases "call_tool sv ''run_healer'' inp (''Running healer (installing dependencies, updating paths - may take 2-5 min)...'') t") (auto simp: same fp remember_def)
    qed
    qed
  qed
qed

lemma tool_step_deferred_eq:
  assumes "sc \<and> 1 \<le> executedThisResponse t"
  shows "tool_step sv cfg sc tid name inp t = Inr (push_result tid deferred_result t)"
proof -
  have c: "(\<not> \<not> (sc \<and> 1 \<le> executedThisResponse t)) = True" using assms by simp
  show ?thesis unfolding tool_step_def Let_def c if_True by (rule refl)
qed

lemma tool_step_deduped_eq:
  assumes "\<not> (sc \<and> 1 \<le> executedThisResponse t)"
    and "fingerprintBrowserAction name inp = Some fp" and "fp \<in> executedBrowserActions t"
  shows "tool_step sv cfg sc tid name inp t = Inr (push_result tid (deduped_result fp) t)"
proof -
  have c: "(\<not> \<not> (sc \<and> 1 \<le> executedThisResponse t)) = False"
    "(Some fp \<noteq> None \<and> the (Some fp) \<in> executedBrowserActions t) = True"
    "(Some fp \<noteq> None \<and> fp \<in> executedBrowserActions t) = True"
    "the (Some fp) = fp"
    using assms by simp_all
  show ?thesis unfolding tool_step_def Let_def assms(2) c if_True if_False by (rule refl)
qed

lemma tool_step_skip:
  assumes "(sc \<and> 1 \<le> executedThisResponse t)
           \<or> (\<exists>fp. fingerprintBrowserAction name inp = Some fp \<and> fp \<in> executedBrowserActions t)"
  shows "\<exists>p. tool_step sv cfg sc tid name inp t = Inr (push_result tid p t)"
proof (cases "sc \<and> 1 \<le> executedThisResponse t")
  case True
  then show ?thesis using tool_step_deferred_eq by blast
next
  case False
  with assms obtain fp where "fingerprintBrowserAction name inp = Some fp"
    "fp \<in> executedBrowserActions t" by blast
  with False show ?thesis using tool_step_deduped_eq by blast
qed

lemma tool_step_dispatch_Inr:
  assumes "\<not> (sc \<and> 1 \<le> executedThisResponse t)"
    and "\<forall>fp. fingerprintBrowserAction name inp = Some fp \<longrightarrow> fp \<notin> executedBrowserActions t"
    and "tool_step sv cfg sc tid name inp t = Inr t'"
  shows "(name \<notin> set known_tools \<and> t' = push_result tid (unknown_tool_result name) t)
         \<or> (name \<in> set known_tools \<and> (\<exists>p r t1. call_tool sv name inp p t = Inr (r, t1)
               \<and> t' = push_result tid r
                        ((remember (fingerprintBrowserAction name inp) r t1)
                           \<lparr>stopAfterBrowseSuccess :=
                              (stopAfterBrowseSuccess t1
                               \<or> (name = ''browse_website'' \<and> STOP_AFTER_SUCCESSFUL_BROWSE cfg
                                  \<and> success r))\<rparr>)))"
  using tool_step_dispatch[OF assms(1,2), where sv=sv and cfg=cfg and tid=tid]
proof
  assume "name \<notin> set known_tools
    \<and> tool_step sv cfg sc tid name inp t = Inr (push_result tid (unknown_tool_result name) t)"
  with assms(3) show ?thesis by simp
next
  assume "name \<in> set known_tools \<and> (\<exists>p. (\<forall>e. call_tool sv name inp p t = Inl e \<longrightarrow> tool_step sv cfg sc tid name inp t = Inl e)
                \<and> (\<forall>r t1. call_tool sv name inp p t = Inr (r, t1) \<longrightarrow>
                    tool_step sv cfg sc tid name inp t =
                      Inr (push_result tid r
                        ((remember (fingerprintBrowserAction name inp) r t1)
                           \<lparr>stopAfterBrowseSuccess :=
                              (stopAfterBrowseSuccess t1
                               \<or> (name = ''browse_website'' \<and> STOP_AFTER_SUCCESSFUL_BROWSE cfg
                                  \<and> success r))\<rparr>))))"
  then obtain p where kn: "name \<in> set known_tools" and
    l: "\<And>e. call_tool sv name inp p t = Inl e \<Longrightarrow> tool_step sv cfg sc tid name inp t = Inl e"
    and r: "\<And>r t1. call_tool sv name inp p t = Inr (r, t1) \<Longrightarrow>
                    tool_step sv cfg sc tid name inp t =
                      Inr (push_result tid r
                        ((remember (fingerprintBrowserAction name inp) r t1)
                           \<lparr>stopAfterBrowseSuccess :=
                              (stopAfterBrowseSuccess t1
                               \<or> (name = ''browse_website'' \<and> STOP_AFTER_SUCCESSFUL_BROWSE cfg
                                  \<and> success r))\<rparr>))"
    by blast
  show ?thesis
  proof (cases "call_tool sv name inp p t")
    case (Inl e)
    from l[OF Inl] assms(3) show ?thesis by simp
  next
    case (Inr x)
    obtain r' t1 where x: "x = (r', t1)" by (cases x)
    from r[OF Inr[unfolded x]] assms(3) Inr x kn show ?thesis by auto
  qed
qed

lemma tool_step_dispatch_Inl:
  assumes "\<not> (sc \<and> 1 \<le> executedThisResponse t)"
    and "\<forall>fp. fingerprintBrowserAction name inp = Some fp \<longrightarrow> fp \<notin> executedBrowserActions t"
    and "tool_step sv cfg sc tid name inp t = Inl e"
  shows "\<exists>p. call_tool sv name inp p t = Inl e"
  using tool_step_dispatch[OF assms(1,2), where sv=sv and cfg=cfg and tid=tid]
proof
  assume "name \<notin> set known_tools
    \<and> tool_step sv cfg sc tid name inp t = Inr (push_result tid (unknown_tool_result name) t)"
  with assms(3) show ?thesis by simp
next
  assume "name \<in> set known_tools \<and> (\<exists>p. (\<forall>e. call_tool sv name inp p t = Inl e \<longrightarrow> tool_step sv cfg sc tid name inp t = Inl e)
                \<and> (\<forall>r t1. call_tool sv name inp p t = Inr (r, t1) \<longrightarrow>
                    tool_step sv cfg sc tid name inp t =
                      Inr (push_result tid r
                        ((remember (fingerprintBrowserAction name inp) r t1)
                           \<lparr>stopAfterBrowseSuccess :=
                              (stopAfterBrowseSuccess t1
                               \<or> (name = ''browse_website'' \<and> STOP_AFTER_SUCCESSFUL_BROWSE cfg
                                  \<and> success r))\<rparr>))))"
  then obtain p where kn: "name \<in> set known_tools" and
    l: "\<And>e. call_tool sv name inp p t = Inl e \<Longrightarrow> tool_step sv cfg sc tid name inp t = Inl e"
    and r: "\<And>r t1. call_tool sv name inp p t = Inr (r, t1) \<Longrightarrow>
                    tool_step sv cfg sc tid name inp t =
                      Inr (push_result tid r
                        ((remember (fingerprintBrowserAction name inp) r t1)
                           \<lparr>stopAfterBrowseSuccess :=
                              (stopAfterBrowseSuccess t1
                               \<or> (name = ''browse_website'' \<and> STOP_AFTER_SUCCESSFUL_BROWSE cfg
                                  \<and> success r))\<rparr>))"
    by blast
  show ?thesis
  proof (cases "call_tool sv name inp p t")
    case (Inl e')
    from l[OF Inl] assms(3) Inl show ?thesis by auto
  next
    case (Inr x)
    obtain r' t1 where x: "x = (r', t1)" by (cases x)
    from r[OF Inr[unfolded x]] assms(3) show ?thesis by simp
  qed
qed

lemma tool_step_recorded:
  assumes inv: "recorded (executedBrowserActions t) (log t)"
    and s: "tool_step sv cfg sc tid name inp t = Inr t'"
  shows "recorded (executedBrowserActions t') (log t')"
proof (cases "(sc \<and> 1 \<le> executedThisResponse t)
           \<or> (\<exists>fp. fingerprintBrowserAction name inp = Some fp \<and> fp \<in> executedBrowserActions t)")
  case True
  from tool_step_skip[OF True, where sv=sv and cfg=cfg and tid=tid] s inv show ?thesis by auto
next
  case False
  then have ex: "\<not> (sc \<and> 1 \<le> executedThisResponse t)"
    and nd: "\<forall>fp. fingerprintBrowserAction name inp = Some fp \<longrightarrow> fp \<notin> executedBrowserActions t"
    by auto
  from tool_step_dispatch_Inr[OF ex nd s] show ?thesis
  proof
    assume "name \<notin> set known_tools \<and> t' = push_result tid (unknown_tool_result name) t"
    with inv show ?thesis by simp
  next
    assume "name \<in> set known_tools \<and> (\<exists>p r t1. call_tool sv name inp p t = Inr (r, t1)
               \<and> t' = push_result tid r
                        ((remember (fingerprintBrowserAction name inp) r t1)
                           \<lparr>stopAfterBrowseSuccess :=
                              (stopAfterBrowseSuccess t1
                               \<or> (name = ''browse_website'' \<and> STOP_AFTER_SUCCESSFUL_BROWSE cfg
                                  \<and> success r))\<rparr>))"
    then obtain p r t1 where c: "call_tool sv name inp p t = Inr (r, t1)"
      and t': "t' = push_result tid r
                        ((remember (fingerprintBrowserAction name inp) r t1)
                           \<lparr>stopAfterBrowseSuccess :=
                              (stopAfterBrowseSuccess t1
                               \<or> (name = ''browse_website'' \<and> STOP_AFTER_SUCCESSFUL_BROWSE cfg
                                  \<and> success r))\<rparr>)"
      by blast
    from call_tool_recorded[OF inv nd c] show ?thesis unfolding t' by simp
  qed
qed

lemma tool_step_thrown:
  assumes inv: "recorded (executedBrowserActions t) (log t)"
    and s: "tool_step sv cfg sc tid name inp t = Inl (m, w, lg)"
  shows "no_redispatch {} lg"
proof (cases "(sc \<and> 1 \<le> executedThisResponse t)
           \<or> (\<exists>fp. fingerprintBrowserAction name inp = Some fp \<and> fp \<in> executedBrowserActions t)")
  case True
  from tool_step_skip[OF True, where sv=sv and cfg=cfg and tid=tid] s show ?thesis by auto
next
  case False
  then have ex: "\<not> (sc \<and> 1 \<le> executedThisResponse t)"
    and nd: "\<forall>fp. fingerprintBrowserAction name inp = Some fp \<longrightarrow> fp \<notin> executedBrowserActions t"
    by auto
  from tool_step_dispatch_Inl[OF ex nd s] obtain p where
    "call_tool sv name inp p t = Inl (m, w, lg)" by blast
  then show ?thesis by (rule call_tool_thrown[OF inv nd])
qed

lemma run_tool_uses_recorded:
  assumes "run_tool_uses sv cfg sc bs t = Inr t'" and "recorded (executedBrowserActions t) (log t)"
  shows "recorded (executedBrowserActions t') (log t')"
  using assms
proof (induction sv cfg sc bs t rule: run_tool_uses.induct)
  case (2 sv cfg sc tid name inp toolUses t)
  then show ?case by (auto split: sum.splits dest: tool_step_recorded)
qed simp_all

lemma run_tool_uses_thrown:
  assumes "run_tool_uses sv cfg sc bs t = Inl (m, w, lg)" and "recorded (executedBrowserActions t) (log t)"
  shows "no_redispatch {} lg"
  using assms
proof (induction sv cfg sc bs t rule: run_tool_uses.induct)
  case (2 sv cfg sc tid name inp toolUses t)
  then show ?case by (auto split: sum.splits dest: tool_step_recorded tool_step_thrown)
qed simp_all













subsection \<open>The loop\<close>

lemma finish_iterations: "finish (r\<lparr>iterations := k\<rparr>) = finish r"
  by (simp add: finish_def)

lemma resubmit_Inr:
  assumes "resubmit sv deep msgs w lg = Inr (resp, w', lg')"
  shows "succeeded lg' = succeeded lg \<and> no_redispatch D lg' = no_redispatch D lg
         \<and> rounds lg' = rounds lg"
  using assms
  by (auto simp: resubmit_def succeeded_append no_redispatch_append rounds_def
      split: prod.splits sum.splits)

lemma resubmit_Inl:
  assumes "resubmit sv deep msgs w lg = Inl (m, w', lg')"
  shows "no_redispatch D lg' = no_redispatch D lg"
  using assms
  by (auto simp: resubmit_def succeeded_append no_redispatch_append
      split: prod.splits sum.splits)

lemma tool_loop_exit:
  assumes "\<not> enters cfg opts r"
  shows "tool_loop sv cfg opts r = Inr (finish r)"
  using assms
  by (subst tool_loop.simps) (auto simp: enters_def Let_def finish_iterations)

lemma tool_loop_enter:
  assumes "enters cfg opts r"
  shows "tool_loop sv cfg opts r =
     (case run_tool_uses sv cfg (stepConfirm opts)
             (filter is_tool_use (resp_content (current r))) (fresh_turn r) of
        Inl e \<Rightarrow> Inl e
      | Inr t \<Rightarrow>
          if stopAfterBrowseSuccess t
          then Inr \<lparr>replyText = ''Browser task completed.'', updatedMessages = folded r t,
                    end_world = world t, end_log = log t @ [Folded]\<rparr>
          else (case resubmit sv (deepThinking opts) (folded r t) (world t) (log t @ [Folded]) of
                  Inl e \<Rightarrow> Inl e
                | Inr (resp, w', lg') \<Rightarrow>
                    tool_loop sv cfg opts
                      \<lparr>iterations = iterations r + 1, executed = executedBrowserActions t,
                       convo = folded r t, current = resp, run_world = w', run_log = lg'\<rparr>))"
proof -
  have c: "(stop_reason (current r) = ''tool_use'') = True"
    "(iterations r + 1 > MAX_AGENT_ITERATIONS cfg) = False"
    "(\<not> allowTools opts) = False"
    "(filter is_tool_use (resp_content (current r)) = []) = False"
    using assms by (auto simp: enters_def)
  show ?thesis
    apply (subst tool_loop.simps)
    unfolding Let_def c if_True if_False fresh_turn_def folded_def
    by (rule refl)
qed

lemma tool_loop_recorded:
  assumes "recorded (executed r) (run_log r)"
  shows "case tool_loop sv cfg opts r of
           Inl (m, w, lg) \<Rightarrow> no_redispatch {} lg
         | Inr out \<Rightarrow> no_redispatch {} (end_log out)"
  using assms
proof (induction "MAX_AGENT_ITERATIONS cfg - iterations r" arbitrary: r)
  case 0
  then have "\<not> enters cfg opts r" by (simp add: enters_def)
  from tool_loop_exit[OF this] "0.prems" show ?case
    by (simp add: finish_def recorded_def Let_def)
next
  case (Suc n)
  show ?case
  proof (cases "enters cfg opts r")
    case False
    from tool_loop_exit[OF this] Suc.prems show ?thesis
      by (simp add: finish_def recorded_def Let_def)
  next
    case True
    let ?run = "run_tool_uses sv cfg (stepConfirm opts)
             (filter is_tool_use (resp_content (current r))) (fresh_turn r)"
    have inv0: "recorded (executedBrowserActions (fresh_turn r)) (log (fresh_turn r))"
      using Suc.prems by (simp add: fresh_turn_def)
    show ?thesis
    proof (cases ?run)
      case (Inl e)
      obtain m w lg where e: "e = (m, w, lg)" by (cases e)
      from run_tool_uses_thrown[OF Inl[unfolded e] inv0] show ?thesis
        by (simp add: tool_loop_enter[OF True] Inl e)
    next
      case (Inr t)
      from run_tool_uses_recorded[OF Inr inv0]
      have inv: "recorded (executedBrowserActions t) (log t)" .
      then have nr: "no_redispatch {} (log t @ [Folded])"
        by (simp add: recorded_def no_redispatch_append)
      show ?thesis
      proof (cases "stopAfterBrowseSuccess t")
        case True
        then show ?thesis using nr
          by (simp add: tool_loop_enter[OF \<open>enters cfg opts r\<close>] Inr)
      next
        case False
        let ?sub = "resubmit sv (deepThinking opts) (folded r t) (world t) (log t @ [Folded])"
        show ?thesis
        proof (cases ?sub)
          case (Inl e)
          obtain m w lg where e: "e = (m, w, lg)" by (cases e)
          from resubmit_Inl[OF Inl[unfolded e], of "{}"] nr show ?thesis
            by (simp add: tool_loop_enter[OF \<open>enters cfg opts r\<close>] Inr False Inl e)
        next
          case (Inr x)
          obtain resp w' lg' where x: "x = (resp, w', lg')" by (cases x)
          let ?r' = "\<lparr>iterations = iterations r + 1, executed = executedBrowserActions t,
                       convo = folded r t, current = resp, run_world = w', run_log = lg'\<rparr>"
          from resubmit_Inr[OF Inr[unfolded x], of "{}"] inv
          have inv': "recorded (executed ?r') (run_log ?r')"
            by (simp add: recorded_def succeeded_append no_redispatch_append)
          have n: "n = MAX_AGENT_ITERATIONS cfg - iterations ?r'"
            using Suc.hyps(2) by simp
          from Suc.hyps(1)[OF n inv'] show ?thesis
            by (simp add: tool_loop_enter[OF \<open>enters cfg opts r\<close>] \<open>?run = Inr t\<close> False Inr x)
        qed
      qed
    qed
  qed
qed

lemma first_submit_log:
  "first_submit sv deep msgs w [] = Inr (resp, w', lg') \<Longrightarrow> succeeded lg' = {} \<and> no_redispatch {} lg' \<and> rounds lg' = 0"
  "first_submit sv deep msgs w [] = Inl (m, w', lg') \<Longrightarrow> no_redispatch {} lg'"
  by (auto simp: first_submit_def rounds_def split: prod.splits sum.splits if_splits)

lemma run_no_redispatch:
  "no_redispatch {} (end_log (processWithClaude sv cfg opts msgs w []))"
proof (cases "first_submit sv (deepThinking opts) msgs w []")
  case (Inl e)
  obtain m w' lg' where e: "e = (m, w', lg')" by (cases e)
  from first_submit_log(2)[OF Inl[unfolded e]] show ?thesis
    by (simp add: processWithClaude_def try_body_def Inl e caught_def)
next
  case (Inr x)
  obtain resp w' lg' where x: "x = (resp, w', lg')" by (cases x)
  let ?r = "\<lparr>iterations = 0, executed = {}, convo = msgs, current = resp,
             run_world = w', run_log = lg'\<rparr>"
  from first_submit_log(1)[OF Inr[unfolded x]]
  have "recorded (executed ?r) (run_log ?r)" by (simp add: recorded_def)
  from tool_loop_recorded[OF this, of sv cfg opts] show ?thesis
    by (auto simp: processWithClaude_def try_body_def Inr x caught_def split: sum.splits)
qed







subsection \<open>Claims about the orchestrator\<close>

text \<open>
  C1. Every assistant response of a run that holds tool-use requests is to be followed,
  in the conversation, by one user message with one tool result per request. In a round
  the loop completes this holds (\<open>round_answers_every_request\<close>). It fails for the
  response that reaches the iteration cap: with a cap of one iteration and a service that
  always asks for a screenshot, the run executes one round, and the second response,
  which holds the request \<^verbatim>\<open>toolu_2\<close>, becomes the last message of the updated history
  with no tool result after it.
\<close>

theorem capped_run_leaves_request_unanswered:
  "updatedMessages
     (processWithClaude (scripted [asks [screenshot ''toolu_1'']] (asks [screenshot ''toolu_2'']))
        (demo_config\<lparr>MAX_AGENT_ITERATIONS := 1\<rparr>) demo_options hello 0 []) =
     [Message User (Text ''hello''),
      Message Assistant (Blocks [screenshot ''toolu_1'']),
      Message User (ToolResults [\<lparr>tool_use_id = ''toolu_1'', payload = ok_result\<rparr>]),
      Message Assistant (Blocks [screenshot ''toolu_2''])]"
  by code_simp




text \<open>
  C3, as amended. A call deferred by step mode gets the deferred payload, whose success
  flag is false and which explains the deferral in its error text; a deduplicated call
  gets the deduped payload, whose success flag is true, with a note and no error. In
  both cases nothing else changes: no tool is dispatched.
\<close>

theorem skipped_by_policy_payload:
  "(step_confirm \<and> 1 \<le> executedThisResponse t \<longrightarrow>
      tool_step sv cfg step_confirm tid name inp t = Inr (push_result tid deferred_result t)
      \<and> \<not> success deferred_result \<and> deferred deferred_result
      \<and> error deferred_result =
          Some ''Deferred by step-by-step mode. The agent should continue in a follow-up step.'')
   \<and> (\<not> (step_confirm \<and> 1 \<le> executedThisResponse t)
        \<and> fingerprintBrowserAction name inp = Some fp \<and> fp \<in> executedBrowserActions t \<longrightarrow>
      tool_step sv cfg step_confirm tid name inp t = Inr (push_result tid (deduped_result fp) t)
      \<and> success (deduped_result fp) \<and> deduped (deduped_result fp)
      \<and> error (deduped_result fp) = None
      \<and> res_note (deduped_result fp) =
          Some ''Skipped duplicate browser action (already executed in this request).'')"
  using tool_step_deferred_eq[of step_confirm t sv cfg tid name inp]
    tool_step_deduped_eq[of step_confirm t name inp fp sv cfg tid]
  by (simp add: deferred_result_def deduped_result_def)

theorem skipped_by_policy_payload_witness:
  "tool_step (scripted [] (says ''done'')) demo_config True ''b'' ''take_screenshot'' no_input
     (demo_turn\<lparr>executedThisResponse := 1\<rparr>) =
     Inr (push_result ''b'' deferred_result (demo_turn\<lparr>executedThisResponse := 1\<rparr>))
   \<and> tool_step (scripted [] (says ''done'')) demo_config False ''c'' ''browse_website''
       (no_input\<lparr>url := Some ''https://example.com''\<rparr>)
       (demo_turn\<lparr>executedBrowserActions := {''browse:https://example.com|''}\<rparr>) =
     Inr (push_result ''c'' (deduped_result ''browse:https://example.com|'')
            (demo_turn\<lparr>executedBrowserActions := {''browse:https://example.com|''}\<rparr>))"
proof -
  have fp: "fingerprintBrowserAction ''browse_website'' (no_input\<lparr>url := Some ''https://example.com''\<rparr>)
              = Some ''browse:https://example.com|''"
    by code_simp
  have a: "True \<and> 1 \<le> executedThisResponse (demo_turn\<lparr>executedThisResponse := 1\<rparr>)"
    by simp
  have b: "\<not> (False \<and> 1 \<le> executedThisResponse
                (demo_turn\<lparr>executedBrowserActions := {''browse:https://example.com|''}\<rparr>))
           \<and> fingerprintBrowserAction ''browse_website'' (no_input\<lparr>url := Some ''https://example.com''\<rparr>)
              = Some ''browse:https://example.com|''
           \<and> ''browse:https://example.com|''
              \<in> executedBrowserActions (demo_turn\<lparr>executedBrowserActions := {''browse:https://example.com|''}\<rparr>)"
    using fp by simp
  from skipped_by_policy_payload[THEN conjunct1, THEN mp, OF a]
    skipped_by_policy_payload[THEN conjunct2, THEN mp, OF b]
  show ?thesis by blast
qed

text \<open>
  C3 as stated fails: in step mode the second screenshot request of a response is
  deferred, and its payload reports success false.
\<close>

theorem deferred_reports_failure:
  "content (updatedMessages
     (processWithClaude (scripted [asks [screenshot ''a'', screenshot ''b'']] (says ''done''))
        demo_config demo_options hello 0 []) ! 2) =
     ToolResults [\<lparr>tool_use_id = ''a'', payload = ok_result\<rparr>,
                  \<lparr>tool_use_id = ''b'', payload = deferred_result\<rparr>]
   \<and> deferred deferred_result \<and> \<not> success deferred_result"
  by code_simp

text \<open>
  C4, as amended. When the run ends in the \<^verbatim>\<open>catch\<close> (the reasoning service, or a
  tool, threw), the reply is \<^verbatim>\<open>Error: \<close> and the message of the error, and the history
  stored for the chat is the history that was submitted: the prior history with the new
  user message appended, cut to its last 40 messages. Nothing the failed run added
  (assistant turns, tool results) is stored, and other chats are untouched.
\<close>

theorem service_failure_history:
  assumes "prior = (case chatHistory chatId of None \<Rightarrow> [] | Some h \<Rightarrow> h)"
    and "try_body sv cfg
           \<lparr>allowTools = True, deepThinking = DEEP_THINKING cfg, stepConfirm = STEP_CONFIRM cfg\<rparr>
           (trimHistory (prior @ [Message User (Text text')])) w lg = Inl (m, w', lg')"
  shows "handleUserText sv cfg chatHistory chatId text' w lg =
           (chatHistory(chatId \<mapsto> trimHistory (prior @ [Message User (Text text')])),
            \<lparr>replyText = ''Error: '' @ m,
             updatedMessages = trimHistory (prior @ [Message User (Text text')]),
             end_world = w', end_log = lg' @ [LongMessage (''Error: '' @ m)]\<rparr>)"
  using assms
  by (simp add: handleUserText_def processWithClaude_def caught_def trimHistory_idem Let_def)

theorem service_failure_history_witness:
  "handleUserText unreachable demo_config [7 \<mapsto> hello] (7::nat) ''again'' 0 [] =
     ([7 \<mapsto> hello](7 \<mapsto> trimHistory (hello @ [Message User (Text ''again'')])),
      \<lparr>replyText = ''Error: '' @ ''Connection error.'',
       updatedMessages = trimHistory (hello @ [Message User (Text ''again'')]),
       end_world = Suc 0,
       end_log = [Submitted False (trimHistory (hello @ [Message User (Text ''again'')]))]
                 @ [LongMessage (''Error: '' @ ''Connection error.'')]\<rparr>)"
proof -
  have p: "hello = (case [7 \<mapsto> hello] (7::nat) of None \<Rightarrow> [] | Some h \<Rightarrow> h)" by simp
  have mc: "messages_create unreachable 0 False (trimHistory (hello @ [Message User (Text ''again'')]))
              = (Inl ''Connection error.'', Suc 0)"
    by (simp add: unreachable_def)
  have nd: "\<not> deepThinking \<lparr>allowTools = True, deepThinking = DEEP_THINKING demo_config,
                             stepConfirm = STEP_CONFIRM demo_config\<rparr>"
    by (simp add: demo_config_def)
  have t: "try_body unreachable demo_config
             \<lparr>allowTools = True, deepThinking = DEEP_THINKING demo_config,
              stepConfirm = STEP_CONFIRM demo_config\<rparr>
             (trimHistory (hello @ [Message User (Text ''again'')])) 0 [] =
           Inl (''Connection error.'', Suc 0,
                [] @ [Submitted False (trimHistory (hello @ [Message User (Text ''again'')]))])"
    by (rule first_call_throws[OF mc nd])
  show ?thesis
    using service_failure_history[where chatHistory="[7 \<mapsto> hello]" and chatId="7::nat"
        and prior=hello, OF p t]
    by simp
qed

text \<open>
  C4 as stated fails: after a request whose service call throws, the stored history is
  no longer what it was before the request; it has the new user message.
\<close>

theorem failed_request_changes_history:
  "fst (handleUserText unreachable demo_config [7 \<mapsto> hello] (7::nat) ''again'' 0 []) 7 =
     Some [Message User (Text ''hello''), Message User (Text ''again'')]
   \<and> [7 \<mapsto> hello] (7::nat) = Some [Message User (Text ''hello'')]"
  by code_simp

text \<open>
  C7, as amended. In one run no fingerprinted browse is dispatched again once a browse
  with the same fingerprint has succeeded. A browse request whose fingerprint is
  recorded as executed gets, without any dispatch, the deduped payload, which reports
  success, unless step mode defers it (another call has already executed in the same
  response): then it gets the deferred payload. The fingerprint of a browse request is
  made of its trimmed url and task, and there is none when the url is empty.
\<close>

theorem browse_dedup:
  "(\<forall>l1 i1 r1 l2 i2 o2 l3 fp.
      end_log (processWithClaude sv cfg opts msgs w []) =
        l1 @ Dispatched ''browse_website'' i1 (Inr r1) # l2 @ Dispatched ''browse_website'' i2 o2 # l3
      \<and> success r1 \<and> fingerprintBrowserAction ''browse_website'' i1 = Some fp
      \<longrightarrow> fingerprintBrowserAction ''browse_website'' i2 \<noteq> Some fp)
   \<and> (fingerprintBrowserAction ''browse_website'' inp = Some fp \<and> fp \<in> executedBrowserActions t
      \<longrightarrow> tool_step sv cfg sc tid ''browse_website'' inp t =
            Inr (push_result tid
                   (if sc \<and> 1 \<le> executedThisResponse t then deferred_result
                    else deduped_result fp) t)
          \<and> success (deduped_result fp) \<and> deduped (deduped_result fp))
   \<and> fingerprintBrowserAction ''browse_website'' inp =
       (if trim (str_or_empty (url inp)) = [] then None
        else Some (''browse:'' @ trim (str_or_empty (url inp)) @ ''|''
                   @ trim (str_or_empty (task inp))))"
proof (intro conjI allI impI)
  fix l1 i1 r1 l2 i2 o2 l3 fp
  assume a: "end_log (processWithClaude sv cfg opts msgs w []) =
        l1 @ Dispatched ''browse_website'' i1 (Inr r1) # l2 @ Dispatched ''browse_website'' i2 o2 # l3
      \<and> success r1 \<and> fingerprintBrowserAction ''browse_website'' i1 = Some fp"
  from run_no_redispatch[of sv cfg opts msgs w] a
  have "no_redispatch {} (l1 @ Dispatched ''browse_website'' i1 (Inr r1) # l2
          @ Dispatched ''browse_website'' i2 o2 # l3)" by simp
  from no_redispatch_twice[OF this] a
  show "fingerprintBrowserAction ''browse_website'' i2 \<noteq> Some fp" by blast
next
  assume b: "fingerprintBrowserAction ''browse_website'' inp = Some fp \<and> fp \<in> executedBrowserActions t"
  show "tool_step sv cfg sc tid ''browse_website'' inp t =
            Inr (push_result tid
                   (if sc \<and> 1 \<le> executedThisResponse t then deferred_result
                    else deduped_result fp) t)"
  proof (cases "sc \<and> 1 \<le> executedThisResponse t")
    case True
    show ?thesis unfolding if_P[OF True] by (rule tool_step_deferred_eq[OF True])
  next
    case False
    from b have f: "fingerprintBrowserAction ''browse_website'' inp = Some fp"
      and m: "fp \<in> executedBrowserActions t" by simp_all
    show ?thesis unfolding if_not_P[OF False] by (rule tool_step_deduped_eq[OF False f m])
  qed
next
  show "success (deduped_result fp)" by (simp add: deduped_result_def)
next
  show "deduped (deduped_result fp)" by (simp add: deduped_result_def)
next
  show "fingerprintBrowserAction ''browse_website'' inp =
       (if trim (str_or_empty (url inp)) = [] then None
        else Some (''browse:'' @ trim (str_or_empty (url inp)) @ ''|''
                   @ trim (str_or_empty (task inp))))"
    by (simp add: fingerprintBrowserAction_def Let_def)
qed

theorem browse_dedup_witness:
  "fingerprintBrowserAction ''browse_website'' (no_input\<lparr>url := Some ''https://example.org''\<rparr>)
     \<noteq> Some ''browse:https://example.com|''
   \<and> tool_step (scripted [asks [browse ''a'', browse_other ''b'']] (says ''done'')) demo_config False ''c'' ''browse_website''
       (no_input\<lparr>url := Some ''https://example.com''\<rparr>)
       (demo_turn\<lparr>executedBrowserActions := {''browse:https://example.com|''}\<rparr>) =
     Inr (push_result ''c'' (deduped_result ''browse:https://example.com|'')
            (demo_turn\<lparr>executedBrowserActions := {''browse:https://example.com|''}\<rparr>))"
proof -
  let ?sv = "scripted [asks [browse ''a'', browse_other ''b'']] (says ''done'')"
  let ?opts = "demo_options\<lparr>stepConfirm := False\<rparr>"
  let ?i1 = "no_input\<lparr>url := Some ''https://example.com''\<rparr>"
  let ?i2 = "no_input\<lparr>url := Some ''https://example.org''\<rparr>"
  let ?t = "demo_turn\<lparr>executedBrowserActions := {''browse:https://example.com|''}\<rparr>"
  have lg: "end_log (processWithClaude ?sv demo_config ?opts hello 0 []) =
      [Submitted False hello, Sent ''Browsing: https://example.com'']
      @ Dispatched ''browse_website'' ?i1 (Inr ok_result)
      # [Sent ''Browsing: https://example.org'']
      @ Dispatched ''browse_website'' ?i2 (Inr ok_result) # [Folded]"
    by code_simp
  have ok: "success ok_result" by code_simp
  have fp: "fingerprintBrowserAction ''browse_website'' ?i1 = Some ''browse:https://example.com|''"
    by code_simp
  have mem: "''browse:https://example.com|'' \<in> executedBrowserActions ?t" by simp
  have ns: "\<not> (False \<and> 1 \<le> executedThisResponse ?t)" by simp
  from browse_dedup[of ?sv demo_config ?opts hello 0 ?i1 "''browse:https://example.com|''"
      ?t False "''c''", THEN conjunct1, rule_format, OF conjI[OF lg conjI[OF ok fp]]]
  have one: "fingerprintBrowserAction ''browse_website'' ?i2 \<noteq> Some ''browse:https://example.com|''" .
  from browse_dedup[of ?sv demo_config ?opts hello 0 ?i1 "''browse:https://example.com|''"
      ?t False "''c''", THEN conjunct2, THEN conjunct1, rule_format, OF conjI[OF fp mem]]
  have two: "tool_step ?sv demo_config False ''c'' ''browse_website'' ?i1 ?t =
     Inr (push_result ''c'' (deduped_result ''browse:https://example.com|'') ?t)"
    by simp
  from one two show ?thesis
    by (simp only: HOL.simp_thms)
qed

text \<open>
  C7 as stated fails: in step mode, the second of two identical browse requests of one
  response is deferred, not deduplicated; its payload is not marked deduped and reports
  success false.
\<close>

theorem duplicate_browse_deferred:
  "content (updatedMessages
     (processWithClaude (scripted [asks [browse ''a'', browse ''b'']] (says ''done''))
        demo_config demo_options hello 0 []) ! 2) =
     ToolResults [\<lparr>tool_use_id = ''a'', payload = ok_result\<rparr>,
                  \<lparr>tool_use_id = ''b'', payload = deferred_result\<rparr>]
   \<and> \<not> deduped deferred_result \<and> \<not> success deferred_result"
  by code_simp





end
